theory Spec2Isabelle
  imports Main "HOL-Library.Word"
begin

unbundle bit_operations_syntax

section \<open>Types of the uFAT headers\<close>

text \<open>
  Modelled from the spec: the declarations of \<open>ufat.h\<close> that \<open>ufat_mkfs.c\<close> uses.
  \<open>ufat_block_t\<close> is an unsigned block count that may exceed 32 bits (the source compares
  it with \<open>UINT32_MAX\<close>), taken as 64 bits wide; \<open>ufat_cluster_t\<close> is a 32-bit cluster
  number; \<open>uint32_t\<close> and \<open>uint8_t\<close> are the fixed-width C types.  Values of
  \<open>unsigned int\<close> that the source only uses as small exponents and loop indices are
  natural numbers here; where the source subtracts them the wrap-around is written out.
\<close>

type_synonym ufat_block_t = "64 word"
type_synonym ufat_cluster_t = "32 word"
type_synonym uint32_t = "32 word"
type_synonym uint16_t = "16 word"
type_synonym uint8_t = "8 word"

datatype ufat_fat_type_t = UFAT_TYPE_FAT12 | UFAT_TYPE_FAT16 | UFAT_TYPE_FAT32

text \<open>
  The error codes the source returns, and the failure of an \<open>assert\<close>, which aborts the
  call.
\<close>

datatype ufat_error = UFAT_ERR_IO | UFAT_ERR_BLOCK_SIZE | ASSERT_FAILED

definition BACKUP_SECTOR :: nat where "BACKUP_SECTOR = 6"
definition FSINFO_SECTOR :: nat where "FSINFO_SECTOR = 1"
definition MEDIA_DISK :: uint8_t where "MEDIA_DISK = 0xf8"
definition BUF_BLOCK_SIZE :: nat where "BUF_BLOCK_SIZE = 1024"
definition UINT32_MAX :: ufat_block_t where "UINT32_MAX = 0xFFFFFFFF"
definition UINT16_MAX :: ufat_block_t where "UINT16_MAX = 0xFFFF"

section \<open>The layout calculator\<close>

record fs_layout =
  log2_sector_size :: nat
  log2_bpc :: nat
  reserved_blocks :: ufat_block_t
  root_blocks :: ufat_block_t
  fat_blocks :: ufat_block_t
  logical_blocks :: ufat_block_t
  clusters :: ufat_cluster_t
  fs_type :: ufat_fat_type_t

text \<open>\<open>bytes_to_blocks\<close>: the sum is formed in 32 bits, the result widened.\<close>

definition bytes_to_blocks :: "nat \<Rightarrow> uint32_t \<Rightarrow> ufat_block_t" where
  "bytes_to_blocks log2_block_size bytes =
     ucast (drop_bit log2_block_size (bytes + push_bit log2_block_size 1 - 1))"

text \<open>
  The first loop of \<open>calculate_layout\<close>: the sector grows while the sector count does not
  fit 32 bits and the sector is below 4 kB.
\<close>

function grow_bps :: "nat \<Rightarrow> ufat_block_t \<Rightarrow> nat \<Rightarrow> nat" where
  "grow_bps log2_block_size nblk log2_bps =
     (if log2_block_size + log2_bps < 12 \<and> drop_bit log2_bps nblk > UINT32_MAX
      then grow_bps log2_block_size nblk (log2_bps + 1)
      else log2_bps)"
  by pat_completeness auto
termination
  by (relation "measure (\<lambda>(b, n, s). 12 - (b + s))") auto

declare grow_bps.simps [simp del]

text \<open>
  The second loop: the cluster grows while the projected cluster count is above the
  threshold, the cluster is below 128 sectors and below 32 kB.
\<close>

function grow_spc :: "nat \<Rightarrow> uint32_t \<Rightarrow> ufat_cluster_t \<Rightarrow> nat \<Rightarrow> nat" where
  "grow_spc lss nsect clusters_threshold log2_spc =
     (if log2_spc < 7 \<and> lss + log2_spc < 15 \<and>
         drop_bit log2_spc nsect > clusters_threshold
      then grow_spc lss nsect clusters_threshold (log2_spc + 1)
      else log2_spc)"
  by pat_completeness auto
termination
  by (relation "measure (\<lambda>(l, n, t, s). 7 - s)") auto

declare grow_spc.simps [simp del]

text \<open>
  The body of \<open>calculate_layout\<close> after the block size check, in two parts.  The first
  (down to \<open>fl->log2_bpc\<close>) fixes the sector size, the FAT type and the cluster size; its
  record holds the locals at that point: \<open>s_nblk\<close> is the block count after the chop,
  \<open>s_spc0\<close> the cluster exponent before the second loop.
\<close>

record sizing =
  s_nblk :: ufat_block_t
  s_log2_bps :: nat
  s_nsect :: uint32_t
  s_type :: ufat_fat_type_t
  s_threshold :: ufat_cluster_t
  s_spc0 :: nat
  s_log2_spc :: nat

definition classify :: "uint32_t \<Rightarrow> ufat_fat_type_t \<times> ufat_cluster_t \<times> nat" where
  "classify nsect =
     (if nsect < 8400 then (UFAT_TYPE_FAT12, push_bit 12 1, 1)
      else if nsect < 1048576 then (UFAT_TYPE_FAT16, push_bit 16 1, 1)
      else (UFAT_TYPE_FAT32, 2097152, 3))"

definition layout_sizing :: "ufat_block_t \<Rightarrow> nat \<Rightarrow> sizing" where
  "layout_sizing nblk0 log2_block_size =
    (let log2_bps = grow_bps log2_block_size nblk0
                      (if log2_block_size < 9 then 9 - log2_block_size else 0);
         nblk = (if drop_bit log2_bps nblk0 > UINT32_MAX
                 then push_bit log2_bps UINT32_MAX else nblk0);
         nsect = (ucast (drop_bit log2_bps nblk) :: uint32_t);
         (ty, clusters_threshold, spc0) = classify nsect;
         log2_spc = grow_spc (log2_block_size + log2_bps) nsect clusters_threshold spc0
     in \<lparr> s_nblk = nblk, s_log2_bps = log2_bps, s_nsect = nsect, s_type = ty,
          s_threshold = clusters_threshold, s_spc0 = spc0, s_log2_spc = log2_spc \<rparr>)"

text \<open>
  The second part sizes the regions.  Its record holds the locals \<open>est_clusters\<close> and
  \<open>fat_bytes\<close>, the root directory size before it is expanded, and the layout.
\<close>

record layout_locals =
  c_est_clusters :: ufat_cluster_t
  c_fat_bytes :: uint32_t
  c_root_min :: ufat_block_t
  c_fl :: fs_layout

definition layout_regions :: "nat \<Rightarrow> sizing \<Rightarrow> layout_locals" where
  "layout_regions log2_block_size sz =
    (let nblk = s_nblk sz; log2_bps = s_log2_bps sz; ty = s_type sz;
         bpc = log2_bps + s_log2_spc sz;
         reserved_sectors = (if ty = UFAT_TYPE_FAT32 then 32 else 1 :: ufat_block_t);
         reserved = push_bit log2_bps reserved_sectors;
         est_clusters = (ucast (drop_bit bpc (nblk - reserved) + 2) :: ufat_cluster_t);
         fat_bytes = (if ty = UFAT_TYPE_FAT32 then push_bit 2 est_clusters
                      else if ty = UFAT_TYPE_FAT16 then push_bit 1 est_clusters
                      else drop_bit 1 (est_clusters * 3 + 1));
         fatb = bytes_to_blocks log2_block_size fat_bytes;
         root0 = (if ty \<noteq> UFAT_TYPE_FAT32
                  then bytes_to_blocks log2_block_size 16384 else 0);
         cl = (ucast (drop_bit bpc (nblk - reserved - root0 - fatb * 2) + 2)
                 :: ufat_cluster_t);
         root = (if ty \<noteq> UFAT_TYPE_FAT32
                 then nblk - reserved - fatb * 2 - ucast (push_bit bpc (cl - 2))
                 else root0);
         logical = ucast (push_bit bpc (cl - 2)) + fatb * 2 + reserved + root
     in \<lparr> c_est_clusters = est_clusters, c_fat_bytes = fat_bytes, c_root_min = root0,
          c_fl = \<lparr> log2_sector_size = log2_block_size + log2_bps, log2_bpc = bpc,
                   reserved_blocks = reserved, root_blocks = root, fat_blocks = fatb,
                   logical_blocks = logical, clusters = cl, fs_type = ty \<rparr> \<rparr>)"

definition layout_body :: "ufat_block_t \<Rightarrow> nat \<Rightarrow> layout_locals" where
  "layout_body nblk log2_block_size =
     layout_regions log2_block_size (layout_sizing nblk log2_block_size)"

definition calculate_layout :: "ufat_block_t \<Rightarrow> nat \<Rightarrow> ufat_error + fs_layout" where
  "calculate_layout nblk log2_block_size =
     (if log2_block_size > 12 then Inl UFAT_ERR_BLOCK_SIZE
      else Inr (c_fl (layout_body nblk log2_block_size)))"


section \<open>The block device and the byte buffers\<close>

text \<open>
  Modelled from the spec: \<open>struct ufat_device\<close> of \<open>ufat.h\<close>, the block device the
  formatter writes to.  It exposes its block size as a power of two and a write
  operation for whole blocks that returns success or a negative status, with no partial
  writes.  The model keeps the contents of every block, counts the calls of \<open>write\<close> and
  lets the device decide from the call number and the block index whether a call fails.
\<close>

record ufat_device =
  log2_block_size :: nat
  dev_blocks :: "ufat_block_t \<Rightarrow> uint8_t list"
  dev_fails :: "nat \<Rightarrow> ufat_block_t \<Rightarrow> bool"
  dev_nwrites :: nat

text \<open>
  A buffer is the array \<open>uint8_t buf[BUF_BLOCK_SIZE]\<close>, read by index.  Its first
  contents are whatever the stack holds: every function that declares one takes them as
  the argument \<open>stk\<close>.
\<close>

type_synonym buffer = "nat \<Rightarrow> uint8_t"

text \<open>\<open>dev->write(dev, start, 1, buf)\<close>: one block of the buffer goes to the device.\<close>

definition dev_write :: "ufat_device \<Rightarrow> ufat_block_t \<Rightarrow> buffer \<Rightarrow> bool \<times> ufat_device" where
  "dev_write dev start buf =
     (let dev1 = dev\<lparr>dev_nwrites := dev_nwrites dev + 1\<rparr>
      in if dev_fails dev (dev_nwrites dev) start then (False, dev1)
         else (True, dev1\<lparr>dev_blocks :=
                 (dev_blocks dev)(start := map buf [0 ..< 2 ^ log2_block_size dev])\<rparr>))"

definition memset_buf :: "buffer \<Rightarrow> nat \<Rightarrow> uint8_t \<Rightarrow> nat \<Rightarrow> buffer" where
  "memset_buf buf off c n = (\<lambda>i. if off \<le> i \<and> i < off + n then c else buf i)"

definition memcpy_buf :: "buffer \<Rightarrow> nat \<Rightarrow> uint8_t list \<Rightarrow> nat \<Rightarrow> buffer" where
  "memcpy_buf buf off src n = (\<lambda>i. if off \<le> i \<and> i < off + n then src ! (i - off) else buf i)"

text \<open>
  Modelled from the spec: the byte-packing primitives \<open>w16\<close> and \<open>w32\<close> of
  \<open>ufat_internal.h\<close>, which write a little-endian 16-bit or 32-bit integer into a
  buffer at an offset.
\<close>

definition w16 :: "buffer \<Rightarrow> nat \<Rightarrow> uint16_t \<Rightarrow> buffer" where
  "w16 buf off v = buf(off := ucast v, off + 1 := ucast (drop_bit 8 v))"

definition w32 :: "buffer \<Rightarrow> nat \<Rightarrow> uint32_t \<Rightarrow> buffer" where
  "w32 buf off v = buf(off := ucast v, off + 1 := ucast (drop_bit 8 v),
                       off + 2 := ucast (drop_bit 16 v), off + 3 := ucast (drop_bit 24 v))"

text \<open>Subtraction of two \<open>unsigned int\<close>, which wraps at \<open>2 ^ 32\<close>.\<close>

definition usub :: "nat \<Rightarrow> nat \<Rightarrow> nat" where
  "usub a b = (if b \<le> a then a - b else a + 2 ^ 32 - b)"

type_synonym status = "ufat_error + unit"

section \<open>The region eraser\<close>

function erase_loop :: "ufat_device \<Rightarrow> ufat_block_t \<Rightarrow> nat \<Rightarrow> buffer \<Rightarrow> nat
                        \<Rightarrow> status \<times> ufat_device" where
  "erase_loop dev start count buf i =
     (if i < count
      then (case dev_write dev (start + of_nat i) buf of
              (False, dev') \<Rightarrow> (Inl UFAT_ERR_IO, dev')
            | (True, dev') \<Rightarrow> erase_loop dev' start count buf (i + 1))
      else (Inr (), dev))"
  by pat_completeness auto
termination
  by (relation "measure (\<lambda>(d, s, c, b, i). c - i)") auto

declare erase_loop.simps [simp del]

definition erase_blocks :: "buffer \<Rightarrow> ufat_device \<Rightarrow> ufat_block_t \<Rightarrow> ufat_block_t
                            \<Rightarrow> status \<times> ufat_device" where
  "erase_blocks stk dev start count =
     (let block_size = 2 ^ log2_block_size dev
      in if \<not> BUF_BLOCK_SIZE \<ge> block_size then (Inl ASSERT_FAILED, dev)
         else erase_loop dev start (unat count) (memset_buf stk 0 0 block_size) 0)"

definition erase_reserved_blocks :: "buffer \<Rightarrow> ufat_device \<Rightarrow> fs_layout \<Rightarrow> status \<times> ufat_device" where
  "erase_reserved_blocks stk dev fl = erase_blocks stk dev 0 (reserved_blocks fl)"

section \<open>The boot sector\<close>

definition byte_of_char :: "char \<Rightarrow> uint8_t" where
  "byte_of_char c = of_nat (of_char c)"

definition boot_header :: "uint8_t list" where
  "boot_header = [0xeb, 0xfe, 0x90] @ map byte_of_char ''ufat    ''"

definition type_name :: "ufat_fat_type_t \<Rightarrow> uint8_t list" where
  "type_name t = map byte_of_char
     (case t of UFAT_TYPE_FAT12 \<Rightarrow> ''FAT12   ''
              | UFAT_TYPE_FAT16 \<Rightarrow> ''FAT16   ''
              | UFAT_TYPE_FAT32 \<Rightarrow> ''FAT32   '')"

text \<open>
  The buffer \<open>write_bpb\<close> builds before it writes: \<open>lbs\<close> is \<open>dev->log2_block_size\<close>.
\<close>

definition bpb_buf :: "buffer \<Rightarrow> nat \<Rightarrow> fs_layout \<Rightarrow> buffer" where
  "bpb_buf stk lbs fl =
    (let log2_bps = usub (log2_sector_size fl) lbs;
         block_size = 2 ^ lbs;
         buf = memset_buf stk 0 0 block_size;
         buf = memcpy_buf buf 0 boot_header 11;
         buf = buf(0x1fe := 0x55);
         buf = buf(0x1ff := 0xaa);
         buf = w16 buf 0x00b (push_bit (log2_sector_size fl) 1);
         buf = buf(0x00d := push_bit (usub (log2_bpc fl) log2_bps) 1);
         buf = w16 buf 0x00e (ucast (push_bit log2_bps (reserved_blocks fl)));
         buf = buf(0x010 := 2);
         buf = w16 buf 0x011 (ucast (push_bit (usub lbs 5) (root_blocks fl)));
         buf = (if fs_type fl \<noteq> UFAT_TYPE_FAT32 \<and> logical_blocks fl \<le> UINT16_MAX
                then w16 buf 0x013 (ucast (push_bit log2_bps (logical_blocks fl)))
                else w32 buf 0x020 (ucast (push_bit log2_bps (logical_blocks fl))));
         buf = buf(0x015 := MEDIA_DISK)
     in if fs_type fl \<noteq> UFAT_TYPE_FAT32
        then (let buf = w16 buf 0x016 (ucast (push_bit log2_bps (fat_blocks fl)));
                  buf = buf(0x026 := 0x29);
                  buf = memset_buf buf 0x02b (byte_of_char CHR '' '') 11
              in memcpy_buf buf 0x036 (type_name (fs_type fl)) 8)
        else (let buf = w32 buf 0x024 (ucast (push_bit log2_bps (fat_blocks fl)));
                  buf = w32 buf 0x02c 2;
                  buf = w16 buf 0x030 1;
                  buf = w16 buf 0x032 (of_nat BACKUP_SECTOR);
                  buf = buf(0x042 := 0x29);
                  buf = memset_buf buf 0x047 (byte_of_char CHR '' '') 11
              in memcpy_buf buf 0x052 (type_name (fs_type fl)) 8))"

definition write_bpb :: "buffer \<Rightarrow> ufat_device \<Rightarrow> fs_layout \<Rightarrow> status \<times> ufat_device" where
  "write_bpb stk dev fl =
    (let log2_bps = usub (log2_sector_size fl) (log2_block_size dev);
         block_size = 2 ^ log2_block_size dev
     in if \<not> BUF_BLOCK_SIZE \<ge> block_size then (Inl ASSERT_FAILED, dev)
        else
          (let buf = bpb_buf stk (log2_block_size dev) fl
           in case dev_write dev 0 buf of
                (False, dev') \<Rightarrow> (Inl UFAT_ERR_IO, dev')
              | (True, dev') \<Rightarrow>
                  if fs_type fl = UFAT_TYPE_FAT32
                  then (case dev_write dev' (of_nat (drop_bit log2_bps BACKUP_SECTOR)) buf of
                          (False, dev'') \<Rightarrow> (Inl UFAT_ERR_IO, dev'')
                        | (True, dev'') \<Rightarrow> (Inr (), dev''))
                  else (Inr (), dev')))"

section \<open>The FSInfo sector\<close>

definition fsinfo_buf :: "buffer \<Rightarrow> nat \<Rightarrow> fs_layout \<Rightarrow> buffer" where
  "fsinfo_buf stk lbs fl =
    (let buf = memset_buf stk 0 0 (2 ^ lbs);
         buf = w32 buf 0x000 0x41615252;
         buf = w32 buf 0x1e4 0x61417272;
         buf = w32 buf 0x1e8 (clusters fl - 3);
         buf = w32 buf 0x1ec 2
     in w32 buf 0x1fc 0xaa550000)"

definition write_fsinfo :: "buffer \<Rightarrow> ufat_device \<Rightarrow> fs_layout \<Rightarrow> status \<times> ufat_device" where
  "write_fsinfo stk dev fl =
    (let log2_bps = usub (log2_sector_size fl) (log2_block_size dev);
         block_size = 2 ^ log2_block_size dev
     in if \<not> BUF_BLOCK_SIZE \<ge> block_size then (Inl ASSERT_FAILED, dev)
        else
          (let buf = fsinfo_buf stk (log2_block_size dev) fl;
               fsinfo_block = (of_nat (drop_bit log2_bps FSINFO_SECTOR) :: ufat_block_t);
               fsinfo_backup_block =
                 (of_nat (drop_bit log2_bps (FSINFO_SECTOR + BACKUP_SECTOR)) :: ufat_block_t)
           in case dev_write dev fsinfo_block buf of
                (False, dev') \<Rightarrow> (Inl UFAT_ERR_IO, dev')
              | (True, dev') \<Rightarrow>
                  (case dev_write dev' fsinfo_backup_block buf of
                     (False, dev'') \<Rightarrow> (Inl UFAT_ERR_IO, dev'')
                   | (True, dev'') \<Rightarrow> (Inr (), dev''))))"


section \<open>The FAT table initializers\<close>

text \<open>
  The loop counters \<open>i\<close>, \<open>block\<close> and \<open>j\<close> stay below their bounds, so they are natural
  numbers; \<open>cluster_pair\<close> and \<open>c\<close> are 32-bit values, compared with the 32-bit cluster
  count.
\<close>

definition pair_data_of :: "ufat_cluster_t \<Rightarrow> uint32_t \<Rightarrow> uint32_t" where
  "pair_data_of cl cluster_pair =
     (if push_bit 1 cluster_pair \<ge> cl then 0xff7ff7
      else if push_bit 1 cluster_pair + 1 \<ge> cl then 0xff7000
      else 0)"

text \<open>The inner loop of \<open>init_fat12\<close>, from index \<open>j\<close> on.\<close>

function fat12_fill :: "ufat_cluster_t \<Rightarrow> nat \<Rightarrow> buffer \<Rightarrow> nat \<Rightarrow> uint32_t \<Rightarrow> nat
                        \<Rightarrow> buffer \<times> nat \<times> uint32_t" where
  "fat12_fill cl block_size buf minor_byte cluster_pair j =
     (if j < block_size
      then (let pair_data = pair_data_of cl cluster_pair;
                buf = buf(j := ucast (drop_bit (push_bit 3 minor_byte) pair_data))
            in if minor_byte + 1 \<ge> 3
               then fat12_fill cl block_size buf 0 (cluster_pair + 1) (j + 1)
               else fat12_fill cl block_size buf (minor_byte + 1) cluster_pair (j + 1))
      else (buf, minor_byte, cluster_pair))"
  by pat_completeness auto
termination
  by (relation "measure (\<lambda>(c, n, b, m, p, j). n - j)") auto

declare fat12_fill.simps [simp del]

text \<open>
  The body of the outer loop of \<open>init_fat12\<close> up to the write: the state restarts at the
  second copy, the block is filled, and the first block of a copy gets the reserved
  entries.  It returns \<open>block\<close>, the buffer, \<open>minor_byte\<close> and \<open>cluster_pair\<close>.
\<close>

definition fat12_body :: "buffer \<Rightarrow> nat \<Rightarrow> fs_layout \<Rightarrow> nat \<Rightarrow> nat \<Rightarrow> uint32_t
                          \<Rightarrow> nat \<times> buffer \<times> nat \<times> uint32_t" where
  "fat12_body stk block_size fl block minor_byte cluster_pair =
     (let (block, minor_byte, cluster_pair) =
             (if block = unat (fat_blocks fl) then (0, 0, 0)
              else (block, minor_byte, cluster_pair));
          buf = memset_buf stk 0 0 block_size;
          (buf, minor_byte, cluster_pair) =
             fat12_fill (clusters fl) block_size buf minor_byte cluster_pair 0;
          buf = (if block = 0 then buf(0 := MEDIA_DISK, 1 := 0x8f, 2 := 0xff) else buf)
      in (block, buf, minor_byte, cluster_pair))"

function fat12_loop :: "buffer \<Rightarrow> ufat_device \<Rightarrow> fs_layout \<Rightarrow> nat \<Rightarrow> nat \<Rightarrow> nat \<Rightarrow> uint32_t
                        \<Rightarrow> status \<times> ufat_device" where
  "fat12_loop stk dev fl i block minor_byte cluster_pair =
     (if i < unat (fat_blocks fl * 2)
      then (case fat12_body stk (2 ^ log2_block_size dev) fl block minor_byte cluster_pair of
              (block, buf, minor_byte, cluster_pair) \<Rightarrow>
                (case dev_write dev (reserved_blocks fl + of_nat i) buf of
                   (False, dev') \<Rightarrow> (Inl UFAT_ERR_IO, dev')
                 | (True, dev') \<Rightarrow>
                     fat12_loop stk dev' fl (i + 1) (block + 1) minor_byte cluster_pair))
      else (Inr (), dev))"
  by pat_completeness auto
termination
  by (relation "measure (\<lambda>(s, d, fl, i, b, m, p). unat (fat_blocks fl * 2) - i)") auto

declare fat12_loop.simps [simp del]

definition init_fat12 :: "buffer \<Rightarrow> ufat_device \<Rightarrow> fs_layout \<Rightarrow> status \<times> ufat_device" where
  "init_fat12 stk dev fl =
     (if \<not> BUF_BLOCK_SIZE \<ge> 2 ^ log2_block_size dev then (Inl ASSERT_FAILED, dev)
      else fat12_loop stk dev fl 0 0 0 0)"

text \<open>The inner loop of \<open>init_fat16\<close>.\<close>

function fat16_fill :: "ufat_cluster_t \<Rightarrow> nat \<Rightarrow> buffer \<Rightarrow> ufat_cluster_t \<Rightarrow> nat
                        \<Rightarrow> buffer \<times> ufat_cluster_t" where
  "fat16_fill cl block_size buf c j =
     (if j < block_size
      then fat16_fill cl block_size (if c \<ge> cl then w16 buf j 0xfff7 else buf) (c + 1) (j + 2)
      else (buf, c))"
  by pat_completeness auto
termination
  by (relation "measure (\<lambda>(cl, n, b, c, j). n - j)") auto

declare fat16_fill.simps [simp del]

text \<open>
  The body of the outer loop of \<open>init_fat16\<close> up to the write.  It returns \<open>block\<close>, the
  buffer and \<open>c\<close>.
\<close>

definition fat16_body :: "buffer \<Rightarrow> nat \<Rightarrow> fs_layout \<Rightarrow> nat \<Rightarrow> ufat_cluster_t
                          \<Rightarrow> nat \<times> buffer \<times> ufat_cluster_t" where
  "fat16_body stk block_size fl block c =
     (let (block, c) = (if block = unat (fat_blocks fl) then (0, 0) else (block, c));
          buf = memset_buf stk 0 0 block_size;
          (buf, c) = fat16_fill (clusters fl) block_size buf c 0;
          buf = (if block = 0
                 then w16 (w16 buf 0 (0xff00 OR ucast MEDIA_DISK)) 2 0xfff8
                 else buf)
      in (block, buf, c))"

function fat16_loop :: "buffer \<Rightarrow> ufat_device \<Rightarrow> fs_layout \<Rightarrow> nat \<Rightarrow> nat \<Rightarrow> ufat_cluster_t
                        \<Rightarrow> status \<times> ufat_device" where
  "fat16_loop stk dev fl i block c =
     (if i < unat (fat_blocks fl * 2)
      then (case fat16_body stk (2 ^ log2_block_size dev) fl block c of
              (block, buf, c) \<Rightarrow>
                (case dev_write dev (reserved_blocks fl + of_nat i) buf of
                   (False, dev') \<Rightarrow> (Inl UFAT_ERR_IO, dev')
                 | (True, dev') \<Rightarrow> fat16_loop stk dev' fl (i + 1) (block + 1) c))
      else (Inr (), dev))"
  by pat_completeness auto
termination
  by (relation "measure (\<lambda>(s, d, fl, i, b, c). unat (fat_blocks fl * 2) - i)") auto

declare fat16_loop.simps [simp del]

definition init_fat16 :: "buffer \<Rightarrow> ufat_device \<Rightarrow> fs_layout \<Rightarrow> status \<times> ufat_device" where
  "init_fat16 stk dev fl =
     (if \<not> BUF_BLOCK_SIZE \<ge> 2 ^ log2_block_size dev then (Inl ASSERT_FAILED, dev)
      else fat16_loop stk dev fl 0 0 0)"

text \<open>The inner loop of \<open>init_fat32\<close>.\<close>

function fat32_fill :: "ufat_cluster_t \<Rightarrow> nat \<Rightarrow> buffer \<Rightarrow> ufat_cluster_t \<Rightarrow> nat
                        \<Rightarrow> buffer \<times> ufat_cluster_t" where
  "fat32_fill cl block_size buf c j =
     (if j < block_size
      then fat32_fill cl block_size (if c \<ge> cl then w32 buf j 0xfffffff7 else buf) (c + 1) (j + 4)
      else (buf, c))"
  by pat_completeness auto
termination
  by (relation "measure (\<lambda>(cl, n, b, c, j). n - j)") auto

declare fat32_fill.simps [simp del]

text \<open>
  The body of the outer loop of \<open>init_fat32\<close> up to the write.  It returns \<open>block\<close>, the
  buffer and \<open>c\<close>.
\<close>

definition fat32_body :: "buffer \<Rightarrow> nat \<Rightarrow> fs_layout \<Rightarrow> nat \<Rightarrow> ufat_cluster_t
                          \<Rightarrow> nat \<times> buffer \<times> ufat_cluster_t" where
  "fat32_body stk block_size fl block c =
     (let (block, c) = (if block = unat (fat_blocks fl) then (0, 0) else (block, c));
          buf = memset_buf stk 0 0 block_size;
          (buf, c) = fat32_fill (clusters fl) block_size buf c 0;
          buf = (if block = 0
                 then w32 (w32 (w32 buf 0 (0xffffff00 OR ucast MEDIA_DISK))
                            4 0xfffffff8) 8 0xfffffff8
                 else buf)
      in (block, buf, c))"

function fat32_loop :: "buffer \<Rightarrow> ufat_device \<Rightarrow> fs_layout \<Rightarrow> nat \<Rightarrow> nat \<Rightarrow> ufat_cluster_t
                        \<Rightarrow> status \<times> ufat_device" where
  "fat32_loop stk dev fl i block c =
     (if i < unat (fat_blocks fl * 2)
      then (case fat32_body stk (2 ^ log2_block_size dev) fl block c of
              (block, buf, c) \<Rightarrow>
                (case dev_write dev (reserved_blocks fl + of_nat i) buf of
                   (False, dev') \<Rightarrow> (Inl UFAT_ERR_IO, dev')
                 | (True, dev') \<Rightarrow> fat32_loop stk dev' fl (i + 1) (block + 1) c))
      else (Inr (), dev))"
  by pat_completeness auto
termination
  by (relation "measure (\<lambda>(s, d, fl, i, b, c). unat (fat_blocks fl * 2) - i)") auto

declare fat32_loop.simps [simp del]

definition init_fat32 :: "buffer \<Rightarrow> ufat_device \<Rightarrow> fs_layout \<Rightarrow> status \<times> ufat_device" where
  "init_fat32 stk dev fl =
     (if \<not> BUF_BLOCK_SIZE \<ge> 2 ^ log2_block_size dev then (Inl ASSERT_FAILED, dev)
      else fat32_loop stk dev fl 0 0 0)"

section \<open>The root directory and the orchestrator\<close>

definition init_root_blocks :: "buffer \<Rightarrow> ufat_device \<Rightarrow> fs_layout \<Rightarrow> status \<times> ufat_device" where
  "init_root_blocks stk dev fl =
     erase_blocks stk dev (fat_blocks fl * 2 + reserved_blocks fl) (root_blocks fl)"

definition init_root_cluster :: "buffer \<Rightarrow> ufat_device \<Rightarrow> fs_layout \<Rightarrow> status \<times> ufat_device" where
  "init_root_cluster stk dev fl =
     erase_blocks stk dev (fat_blocks fl * 2 + reserved_blocks fl + root_blocks fl)
        (push_bit (log2_bpc fl) 1)"

text \<open>The \<open>switch\<close> of \<open>ufat_mkfs\<close> on the FAT type.\<close>

definition init_fat :: "buffer \<Rightarrow> ufat_device \<Rightarrow> fs_layout \<Rightarrow> status \<times> ufat_device" where
  "init_fat stk dev fl =
     (case fs_type fl of
        UFAT_TYPE_FAT12 \<Rightarrow> init_fat12 stk dev fl
      | UFAT_TYPE_FAT16 \<Rightarrow> init_fat16 stk dev fl
      | UFAT_TYPE_FAT32 \<Rightarrow> init_fat32 stk dev fl)"

text \<open>
  \<open>ufat_mkfs\<close> returns its status together with the device as the call leaves it: the
  first failing step ends the call.
\<close>

definition ufat_mkfs :: "buffer \<Rightarrow> ufat_device \<Rightarrow> ufat_block_t \<Rightarrow> status \<times> ufat_device" where
  "ufat_mkfs stk dev nblk =
    (case calculate_layout nblk (log2_block_size dev) of
       Inl e \<Rightarrow> (Inl e, dev)
     | Inr fl \<Rightarrow>
        (case erase_reserved_blocks stk dev fl of
           (Inl e, dev1) \<Rightarrow> (Inl e, dev1)
         | (Inr _, dev1) \<Rightarrow>
            (case init_fat stk dev1 fl of
               (Inl e, dev2) \<Rightarrow> (Inl e, dev2)
             | (Inr _, dev2) \<Rightarrow>
                (case (if fs_type fl = UFAT_TYPE_FAT32 then init_root_cluster stk dev2 fl
                       else init_root_blocks stk dev2 fl) of
                   (Inl e, dev3) \<Rightarrow> (Inl e, dev3)
                 | (Inr _, dev3) \<Rightarrow>
                    (if fs_type fl = UFAT_TYPE_FAT32
                     then (case write_fsinfo stk dev3 fl of
                             (Inl e, dev4) \<Rightarrow> (Inl e, dev4)
                           | (Inr _, dev4) \<Rightarrow> write_bpb stk dev4 fl)
                     else write_bpb stk dev3 fl)))))"

section \<open>Notions used in the statements\<close>

text \<open>A device none of whose writes fails.\<close>

definition never_fails :: "ufat_device \<Rightarrow> bool" where
  "never_fails dev \<longleftrightarrow> (\<forall>n b. \<not> dev_fails dev n b)"

text \<open>What a sequence of writes guarantees: the status is success or the I/O error, the
  block size and the failure behaviour of the device stay, and a device that never fails
  gives success.\<close>

definition io_ok :: "ufat_device \<Rightarrow> status \<times> ufat_device \<Rightarrow> bool" where
  "io_ok dev r \<longleftrightarrow>
     (fst r = Inr () \<or> fst r = Inl UFAT_ERR_IO) \<and>
     log2_block_size (snd r) = log2_block_size dev \<and>
     dev_fails (snd r) = dev_fails dev \<and>
     (never_fails dev \<longrightarrow> fst r = Inr ())"

text \<open>The same for a writer that asserts first that the block fits the buffer.\<close>

definition asserts_ok :: "ufat_device \<Rightarrow> status \<times> ufat_device \<Rightarrow> bool" where
  "asserts_ok dev r \<longleftrightarrow>
     (if 2 ^ log2_block_size dev \<le> BUF_BLOCK_SIZE then io_ok dev r
      else r = (Inl ASSERT_FAILED, dev))"

text \<open>An empty device with blocks of \<open>2 ^ l\<close> bytes that never fails.\<close>

definition dev0 :: "nat \<Rightarrow> ufat_device" where
  "dev0 l = \<lparr> log2_block_size = l, dev_blocks = (\<lambda>b. []), dev_fails = (\<lambda>n b. False),
             dev_nwrites = 0 \<rparr>"

text \<open>A stack that holds zeros.\<close>

definition stk0 :: buffer where
  "stk0 = (\<lambda>i. 0)"

text \<open>
  A reference FAT parser, following the words of the spec ("parsing its boot sector with a
  reference FAT parser"): it reads the fields of the BIOS parameter block at their
  conventional offsets, little-endian.  The FAT size is the 16-bit field at \<open>0x16\<close>
  unless that is zero, and then the 32-bit field at \<open>0x24\<close>.
\<close>

record bpb =
  bpb_bytes_per_sector :: nat
  bpb_sectors_per_cluster :: nat
  bpb_reserved_sectors :: nat
  bpb_fat_size :: nat

definition le16 :: "uint8_t list \<Rightarrow> nat \<Rightarrow> nat" where
  "le16 bs off = unat (bs ! off) + 256 * unat (bs ! (off + 1))"

definition le32 :: "uint8_t list \<Rightarrow> nat \<Rightarrow> nat" where
  "le32 bs off = le16 bs off + 65536 * le16 bs (off + 2)"

definition parse_boot_sector :: "uint8_t list \<Rightarrow> bpb" where
  "parse_boot_sector bs =
     \<lparr> bpb_bytes_per_sector = le16 bs 0x00b,
       bpb_sectors_per_cluster = unat (bs ! 0x00d),
       bpb_reserved_sectors = le16 bs 0x00e,
       bpb_fat_size = (if le16 bs 0x016 \<noteq> 0 then le16 bs 0x016 else le32 bs 0x024) \<rparr>"

section \<open>The contents of the file allocation tables\<close>

text \<open>
  A list of block writes done in order, ending at the first that fails: every loop of
  the formatter is one.
\<close>

fun write_all :: "ufat_device \<Rightarrow> (ufat_block_t \<times> buffer) list \<Rightarrow> status \<times> ufat_device" where
  "write_all dev [] = (Inr (), dev)"
| "write_all dev ((a, b) # ws) =
     (case dev_write dev a b of
        (False, dev') \<Rightarrow> (Inl UFAT_ERR_IO, dev')
      | (True, dev') \<Rightarrow> write_all dev' ws)"

text \<open>
  Byte \<open>p\<close> of a FAT12 table as the inner loop of \<open>init_fat12\<close> leaves it: the byte of
  the pair \<open>p div 3\<close> at position \<open>p mod 3\<close>.
\<close>

definition raw12 :: "ufat_cluster_t \<Rightarrow> nat \<Rightarrow> uint8_t" where
  "raw12 cl p = ucast (drop_bit (8 * (p mod 3)) (pair_data_of cl (of_nat (p div 3))))"

text \<open>
  Byte \<open>p\<close> of a FAT12 table as it is written: the first three bytes are those of the
  reserved entries.
\<close>

definition fat12_byte :: "ufat_cluster_t \<Rightarrow> nat \<Rightarrow> uint8_t" where
  "fat12_byte cl p = (if p < 3 then [0xf8, 0x8f, 0xff] ! p else raw12 cl p)"

text \<open>
  Byte \<open>p\<close> of a FAT16 table as the inner loop of \<open>init_fat16\<close> leaves it, and as it is
  written.
\<close>

definition raw16 :: "ufat_cluster_t \<Rightarrow> nat \<Rightarrow> uint8_t" where
  "raw16 cl p = (if cl \<le> of_nat (p div 2) then (if even p then 0xf7 else 0xff) else 0)"

definition fat16_byte :: "ufat_cluster_t \<Rightarrow> nat \<Rightarrow> uint8_t" where
  "fat16_byte cl p = (if p < 4 then [0xf8, 0xff, 0xf8, 0xff] ! p else raw16 cl p)"

text \<open>
  Byte \<open>p\<close> of a FAT16 table as \<open>init_fat16\<close> leaves it on a device whose blocks have
  one byte: every block takes the first byte of its buffer, and \<open>c\<close> advances by one
  from block to block.
\<close>

definition fat16_byte_1 :: "ufat_cluster_t \<Rightarrow> nat \<Rightarrow> uint8_t" where
  "fat16_byte_1 cl p = (if p = 0 then 0xf8 else if cl \<le> of_nat p then 0xf7 else 0)"

text \<open>
  The same for FAT32.
\<close>

definition raw32 :: "ufat_cluster_t \<Rightarrow> nat \<Rightarrow> uint8_t" where
  "raw32 cl p = (if cl \<le> of_nat (p div 4) then (if p mod 4 = 0 then 0xf7 else 0xff) else 0)"

definition fat32_byte :: "ufat_cluster_t \<Rightarrow> nat \<Rightarrow> uint8_t" where
  "fat32_byte cl p = (if p < 12 then (if p mod 4 = 0 then 0xf8 else 0xff) else raw32 cl p)"

text \<open>
  Byte \<open>p\<close> of the table of a type.
\<close>

definition fat_byte :: "ufat_fat_type_t \<Rightarrow> ufat_cluster_t \<Rightarrow> nat \<Rightarrow> uint8_t" where
  "fat_byte ty cl = (case ty of UFAT_TYPE_FAT12 \<Rightarrow> fat12_byte cl
                      | UFAT_TYPE_FAT16 \<Rightarrow> fat16_byte cl
                      | UFAT_TYPE_FAT32 \<Rightarrow> fat32_byte cl)"

text \<open>
  The buffer written for block \<open>b\<close> of a copy of a table with the bytes \<open>byte\<close>: above
  the block it keeps what the stack held.
\<close>

definition table_buf :: "(nat \<Rightarrow> uint8_t) \<Rightarrow> buffer \<Rightarrow> nat \<Rightarrow> nat \<Rightarrow> buffer" where
  "table_buf byte stk bs b = (\<lambda>i. if i < bs then byte (b * bs + i) else stk i)"

text \<open>
  The writes of a FAT initializer from iteration \<open>i\<close> on: two copies, block after block.
\<close>

definition table_writes :: "(nat \<Rightarrow> uint8_t) \<Rightarrow> buffer \<Rightarrow> nat \<Rightarrow> fs_layout \<Rightarrow> nat
                            \<Rightarrow> (ufat_block_t \<times> buffer) list" where
  "table_writes byte stk bs fl i =
     map (\<lambda>i'. (reserved_blocks fl + of_nat i',
                 table_buf byte stk bs (i' mod unat (fat_blocks fl))))
         [i ..< 2 * unat (fat_blocks fl)]"

text \<open>
  The value of the variable \<open>block\<close> at the head of iteration \<open>i\<close>.
\<close>

definition block_at :: "fs_layout \<Rightarrow> nat \<Rightarrow> nat" where
  "block_at fl i = (if i \<le> unat (fat_blocks fl) then i else i - unat (fat_blocks fl))"

text \<open>
  The bytes of copy \<open>k\<close> of the FAT on a device: its blocks follow the reserved blocks.
\<close>

definition fat_copy :: "ufat_device \<Rightarrow> fs_layout \<Rightarrow> nat \<Rightarrow> uint8_t list" where
  "fat_copy dev fl k =
     concat (map (\<lambda>b. dev_blocks dev (reserved_blocks fl + of_nat (k * unat (fat_blocks fl) + b)))
                 [0 ..< unat (fat_blocks fl)])"

text \<open>
  Entry \<open>n\<close> of a table, read the way the format defines it: 12-bit entries are packed
  two to three bytes, 16-bit and 32-bit entries are little-endian.
\<close>

definition fat_entry :: "ufat_fat_type_t \<Rightarrow> uint8_t list \<Rightarrow> nat \<Rightarrow> nat" where
  "fat_entry ty bs n =
     (case ty of
        UFAT_TYPE_FAT12 \<Rightarrow>
          (if even n then le16 bs (n + n div 2) mod 4096 else le16 bs (n + n div 2) div 16)
      | UFAT_TYPE_FAT16 \<Rightarrow> le16 bs (2 * n)
      | UFAT_TYPE_FAT32 \<Rightarrow> le32 bs (4 * n))"

text \<open>
  Entry \<open>n\<close> lies within a table of \<open>nbytes\<close> bytes.
\<close>

definition entry_in_table :: "ufat_fat_type_t \<Rightarrow> nat \<Rightarrow> nat \<Rightarrow> bool" where
  "entry_in_table ty nbytes n =
     (case ty of
        UFAT_TYPE_FAT12 \<Rightarrow> n + n div 2 + 2 \<le> nbytes
      | UFAT_TYPE_FAT16 \<Rightarrow> 2 * n + 2 \<le> nbytes
      | UFAT_TYPE_FAT32 \<Rightarrow> 4 * n + 4 \<le> nbytes)"

text \<open>
  The entries that the first block of a copy sets itself: entries 0 and 1, and for FAT32
  also entry 2, the cluster of the root directory.
\<close>

definition reserved_entries :: "ufat_fat_type_t \<Rightarrow> nat" where
  "reserved_entries ty = (case ty of UFAT_TYPE_FAT32 \<Rightarrow> 3 | _ \<Rightarrow> 2)"




text \<open>
  The marker of a bad cluster, which the initializers write beyond the last cluster.
\<close>

definition bad_marker :: "ufat_fat_type_t \<Rightarrow> nat" where
  "bad_marker ty = (case ty of UFAT_TYPE_FAT12 \<Rightarrow> 0xff7 | UFAT_TYPE_FAT16 \<Rightarrow> 0xfff7
                      | UFAT_TYPE_FAT32 \<Rightarrow> 0xfffffff7)"

section \<open>Properties of the layout calculator\<close>

lemmas sel_convs = layout_locals.select_convs fs_layout.select_convs sizing.select_convs

lemma regions_type: "fs_type (c_fl (layout_regions l sz)) = s_type sz"
  by (simp only: layout_regions_def Let_def sel_convs)

lemma regions_bpc: "log2_bpc (c_fl (layout_regions l sz)) = s_log2_bps sz + s_log2_spc sz"
  by (simp only: layout_regions_def Let_def sel_convs)

lemma regions_lss: "log2_sector_size (c_fl (layout_regions l sz)) = l + s_log2_bps sz"
  by (simp only: layout_regions_def Let_def sel_convs)

lemma regions_reserved: "reserved_blocks (c_fl (layout_regions l sz)) =
    push_bit (s_log2_bps sz) (if s_type sz = UFAT_TYPE_FAT32 then 32 else 1)"
  by (simp only: layout_regions_def Let_def sel_convs)

lemma sizing_classify:
  "(s_type (layout_sizing n l), s_threshold (layout_sizing n l), s_spc0 (layout_sizing n l))
     = classify (s_nsect (layout_sizing n l))"
  by (simp only: layout_sizing_def Let_def split_beta sel_convs prod.collapse)

lemma sizing_spc: "s_log2_spc (layout_sizing n l) =
   grow_spc (l + s_log2_bps (layout_sizing n l)) (s_nsect (layout_sizing n l))
     (s_threshold (layout_sizing n l)) (s_spc0 (layout_sizing n l))"
  by (simp only: layout_sizing_def Let_def split_beta sel_convs)

lemma sizing_bps: "s_log2_bps (layout_sizing n l) = grow_bps l n (if l < 9 then 9 - l else 0)"
  by (simp only: layout_sizing_def Let_def split_beta sel_convs)

lemma sizing_nsect: "s_nsect (layout_sizing n l) = ucast (drop_bit (s_log2_bps (layout_sizing n l)) (s_nblk (layout_sizing n l)))"
  by (simp only: layout_sizing_def Let_def split_beta sel_convs)

lemma sizing_nblk: "s_nblk (layout_sizing n l) =
   (if drop_bit (s_log2_bps (layout_sizing n l)) n > UINT32_MAX
    then push_bit (s_log2_bps (layout_sizing n l)) UINT32_MAX else n)"
  by (simp only: layout_sizing_def Let_def split_beta sel_convs)


lemma sizing_spc0: "s_spc0 (layout_sizing n l) =
   (if s_type (layout_sizing n l) = UFAT_TYPE_FAT32 then 3 else 1)"
  using sizing_classify [of n l] by (simp add: classify_def split: if_splits)

lemma sizing_threshold: "s_threshold (layout_sizing n l) =
   (case s_type (layout_sizing n l) of UFAT_TYPE_FAT12 \<Rightarrow> 4096 | UFAT_TYPE_FAT16 \<Rightarrow> 65536
      | UFAT_TYPE_FAT32 \<Rightarrow> 2097152)"
  using sizing_classify [of n l] by (simp add: classify_def split: if_splits)

lemma calculate_layout_Inr:
  "calculate_layout n l = Inr fl \<longleftrightarrow> l \<le> 12 \<and> fl = c_fl (layout_body n l)"
  by (auto simp: calculate_layout_def)

lemma calculate_layout_Inl:
  "calculate_layout n l = Inl e \<longleftrightarrow> 12 < l \<and> e = UFAT_ERR_BLOCK_SIZE"
  by (auto simp: calculate_layout_def)

lemma grow_spc_ge: "s \<le> grow_spc lss ns thr s"
proof (induction lss ns thr s rule: grow_spc.induct)
  case (1 lss ns thr s)
  show ?case
  proof (cases "s < 7 \<and> lss + s < 15 \<and> drop_bit s ns > thr")
    case True
    with "1.IH" have "s + 1 \<le> grow_spc lss ns thr (s + 1)" by simp
    with True show ?thesis by (subst grow_spc.simps) simp
  next
    case False
    then show ?thesis by (subst grow_spc.simps) auto
  qed
qed

lemma grow_spc_stop:
  "\<not> (s < 7 \<and> lss + s < 15 \<and> drop_bit s ns > thr) \<Longrightarrow> grow_spc lss ns thr s = s"
  by (subst grow_spc.simps) auto

text \<open>the loop exits where its condition fails, and the condition held all the way\<close>
lemma grow_spc_exit:
  "\<not> (grow_spc lss ns thr s < 7 \<and> lss + grow_spc lss ns thr s < 15 \<and>
       drop_bit (grow_spc lss ns thr s) ns > thr)"
proof (induction lss ns thr s rule: grow_spc.induct)
  case (1 lss ns thr s)
  show ?case
  proof (cases "s < 7 \<and> lss + s < 15 \<and> drop_bit s ns > thr")
    case True
    then have "grow_spc lss ns thr s = grow_spc lss ns thr (s + 1)"
      by (subst grow_spc.simps) simp
    with "1.IH" True show ?thesis by simp
  next
    case False
    then show ?thesis by (simp add: grow_spc_stop)
  qed
qed

lemma grow_spc_during:
  "s \<le> k \<Longrightarrow> k < grow_spc lss ns thr s \<Longrightarrow> k < 7 \<and> lss + k < 15 \<and> drop_bit k ns > thr"
proof (induction lss ns thr s rule: grow_spc.induct)
  case (1 lss ns thr s)
  show ?case
  proof (cases "s < 7 \<and> lss + s < 15 \<and> drop_bit s ns > thr")
    case True
    then have eq: "grow_spc lss ns thr s = grow_spc lss ns thr (s + 1)"
      by (subst grow_spc.simps) simp
    show ?thesis
    proof (cases "k = s")
      case True
      with \<open>s < 7 \<and> lss + s < 15 \<and> drop_bit s ns > thr\<close> show ?thesis by simp
    next
      case False
      with "1.prems" have "s + 1 \<le> k" by simp
      with "1.IH" True "1.prems" eq show ?thesis by simp
    qed
  next
    case False
    with "1.prems" show ?thesis by (simp add: grow_spc_stop)
  qed
qed

text \<open>The layouts of some devices.\<close>

lemma sizing_8000: "layout_sizing 8000 9 =
   \<lparr> s_nblk = 8000, s_log2_bps = 0, s_nsect = 8000, s_type = UFAT_TYPE_FAT12,
     s_threshold = 4096, s_spc0 = 1, s_log2_spc = 1 \<rparr>"
  by code_simp

lemma layout_8000: "c_fl (layout_body 8000 9) =
     \<lparr> log2_sector_size = 9, log2_bpc = 1, reserved_blocks = 1, root_blocks = 33,
       fat_blocks = 12, logical_blocks = 8000, clusters = 3973,
       fs_type = UFAT_TYPE_FAT12 \<rparr>"
  by code_simp


section \<open>Properties of the writers\<close>

lemma dev_write_cases:
  obtains dev' where "dev_write dev b buf = (False, dev')"
  | dev' where "dev_write dev b buf = (True, dev')"
  by (cases "dev_write dev b buf") (metis (full_types))

lemma dev_write_True:
  "dev_write dev b buf = (True, dev') \<Longrightarrow>
     log2_block_size dev' = log2_block_size dev \<and> dev_fails dev' = dev_fails dev \<and>
     dev_nwrites dev' = dev_nwrites dev + 1 \<and>
     dev_blocks dev' = (dev_blocks dev)(b := map buf [0 ..< 2 ^ log2_block_size dev])"
  by (auto simp: dev_write_def Let_def split: if_splits)

lemma dev_write_False:
  "dev_write dev b buf = (False, dev') \<Longrightarrow>
     log2_block_size dev' = log2_block_size dev \<and> dev_fails dev' = dev_fails dev \<and>
     dev_blocks dev' = dev_blocks dev \<and> \<not> never_fails dev"
  by (auto simp: dev_write_def Let_def never_fails_def split: if_splits)

lemma never_fails_cong: "dev_fails dev' = dev_fails dev \<Longrightarrow> never_fails dev' = never_fails dev"
  by (simp add: never_fails_def)

lemma io_ok_fail:
  "dev_write dev b buf = (False, dev') \<Longrightarrow> io_ok dev (Inl UFAT_ERR_IO, dev')"
  by (simp add: io_ok_def dev_write_False)

lemma io_ok_step:
  "dev_write dev b buf = (True, dev') \<Longrightarrow> io_ok dev' r \<Longrightarrow> io_ok dev r"
  by (auto simp: io_ok_def dest!: dev_write_True simp: never_fails_def)

lemma io_ok_refl: "io_ok dev (Inr (), dev)"
  by (simp add: io_ok_def)

lemma io_ok_trans: "io_ok dev (Inr (), dev1) \<Longrightarrow> io_ok dev1 r \<Longrightarrow> io_ok dev r"
  by (auto simp: io_ok_def never_fails_def)

lemma erase_loop_io: "io_ok dev (erase_loop dev start count buf i)"
proof (induction dev start count buf i rule: erase_loop.induct)
  case (1 dev start count buf i)
  show ?case
  proof (cases "i < count")
    case True
    show ?thesis
    proof (cases rule: dev_write_cases [of dev "start + of_nat i" buf])
      case (1 dev')
      with True io_ok_fail [OF 1] show ?thesis by (subst erase_loop.simps) simp
    next
      case (2 dev')
      with io_ok_step [OF 2 "1.IH" [OF True 2 [symmetric]]] True show ?thesis
        by (subst erase_loop.simps) simp
    qed
  next
    case False
    then show ?thesis by (subst erase_loop.simps) (simp add: io_ok_refl)
  qed
qed

lemma fat12_loop_io: "io_ok dev (fat12_loop stk dev fl i block mb cp)"
proof (induction stk dev fl i block mb cp rule: fat12_loop.induct)
  case (1 stk dev fl i block mb cp)
  show ?case
  proof (cases "i < unat (fat_blocks fl * 2)")
    case True
    obtain block' buf mb' cp' where
      b: "fat12_body stk (2 ^ log2_block_size dev) fl block mb cp = (block', buf, mb', cp')"
      by (metis prod_cases4)
    show ?thesis
    proof (cases rule: dev_write_cases [of dev "reserved_blocks fl + of_nat i" buf])
      case (1 dev')
      with True b io_ok_fail [OF 1] show ?thesis by (subst fat12_loop.simps) simp
    next
      case (2 dev')
      have "io_ok dev' (fat12_loop stk dev' fl (i + 1) (block' + 1) mb' cp')"
        using "1.IH" [OF True b [symmetric] refl refl 2 [symmetric]] by simp
      with True b 2 io_ok_step [OF 2] show ?thesis by (subst fat12_loop.simps) simp
    qed
  next
    case False
    then show ?thesis by (subst fat12_loop.simps) (simp add: io_ok_refl)
  qed
qed

lemma fat16_loop_io: "io_ok dev (fat16_loop stk dev fl i block c)"
proof (induction stk dev fl i block c rule: fat16_loop.induct)
  case (1 stk dev fl i block c)
  show ?case
  proof (cases "i < unat (fat_blocks fl * 2)")
    case True
    obtain block' buf c' where
      b: "fat16_body stk (2 ^ log2_block_size dev) fl block c = (block', buf, c')"
      by (metis prod_cases3)
    show ?thesis
    proof (cases rule: dev_write_cases [of dev "reserved_blocks fl + of_nat i" buf])
      case (1 dev')
      with True b io_ok_fail [OF 1] show ?thesis by (subst fat16_loop.simps) simp
    next
      case (2 dev')
      have "io_ok dev' (fat16_loop stk dev' fl (i + 1) (block' + 1) c')"
        using "1.IH" [OF True b [symmetric] refl 2 [symmetric]] by simp
      with True b 2 io_ok_step [OF 2] show ?thesis by (subst fat16_loop.simps) simp
    qed
  next
    case False
    then show ?thesis by (subst fat16_loop.simps) (simp add: io_ok_refl)
  qed
qed

lemma fat32_loop_io: "io_ok dev (fat32_loop stk dev fl i block c)"
proof (induction stk dev fl i block c rule: fat32_loop.induct)
  case (1 stk dev fl i block c)
  show ?case
  proof (cases "i < unat (fat_blocks fl * 2)")
    case True
    obtain block' buf c' where
      b: "fat32_body stk (2 ^ log2_block_size dev) fl block c = (block', buf, c')"
      by (metis prod_cases3)
    show ?thesis
    proof (cases rule: dev_write_cases [of dev "reserved_blocks fl + of_nat i" buf])
      case (1 dev')
      with True b io_ok_fail [OF 1] show ?thesis by (subst fat32_loop.simps) simp
    next
      case (2 dev')
      have "io_ok dev' (fat32_loop stk dev' fl (i + 1) (block' + 1) c')"
        using "1.IH" [OF True b [symmetric] refl 2 [symmetric]] by simp
      with True b 2 io_ok_step [OF 2] show ?thesis by (subst fat32_loop.simps) simp
    qed
  next
    case False
    then show ?thesis by (subst fat32_loop.simps) (simp add: io_ok_refl)
  qed
qed

lemma erase_blocks_io: "asserts_ok dev (erase_blocks stk dev start count)"
  by (simp add: asserts_ok_def erase_blocks_def Let_def erase_loop_io)

lemma init_fat_io: "asserts_ok dev (init_fat stk dev fl)"
  by (cases "fs_type fl")
     (simp_all add: asserts_ok_def init_fat_def init_fat12_def init_fat16_def init_fat32_def
        fat12_loop_io fat16_loop_io fat32_loop_io)

lemma write_bpb_io: "asserts_ok dev (write_bpb stk dev fl)"
proof (cases "2 ^ log2_block_size dev \<le> BUF_BLOCK_SIZE")
  case False
  then show ?thesis by (simp add: asserts_ok_def write_bpb_def Let_def)
next
  case le: True
  let ?buf = "bpb_buf stk (log2_block_size dev) fl"
  show ?thesis
  proof (cases rule: dev_write_cases [of dev 0 ?buf])
    case (1 dev')
    with le io_ok_fail [OF 1] show ?thesis by (simp add: asserts_ok_def write_bpb_def Let_def)
  next
    case w1: (2 dev')
    show ?thesis
    proof (cases "fs_type fl = UFAT_TYPE_FAT32")
      case False
      with le w1 io_ok_step [OF w1 io_ok_refl] show ?thesis
        by (simp add: asserts_ok_def write_bpb_def Let_def)
    next
      case True
      let ?b = "of_nat (drop_bit (usub (log2_sector_size fl) (log2_block_size dev)) BACKUP_SECTOR) :: ufat_block_t"
      show ?thesis
      proof (cases rule: dev_write_cases [of dev' ?b ?buf])
        case (1 dev'')
        with le w1 True io_ok_step [OF w1 io_ok_fail [OF 1]] show ?thesis
          by (simp add: asserts_ok_def write_bpb_def Let_def)
      next
        case (2 dev'')
        with le w1 True io_ok_step [OF w1 io_ok_step [OF 2 io_ok_refl]] show ?thesis
          by (simp add: asserts_ok_def write_bpb_def Let_def)
      qed
    qed
  qed
qed

lemma write_fsinfo_io: "asserts_ok dev (write_fsinfo stk dev fl)"
proof (cases "2 ^ log2_block_size dev \<le> BUF_BLOCK_SIZE")
  case False
  then show ?thesis by (simp add: asserts_ok_def write_fsinfo_def Let_def)
next
  case le: True
  let ?buf = "fsinfo_buf stk (log2_block_size dev) fl"
  let ?s = "usub (log2_sector_size fl) (log2_block_size dev)"
  let ?b1 = "of_nat (drop_bit ?s FSINFO_SECTOR) :: ufat_block_t"
  let ?b2 = "of_nat (drop_bit ?s (FSINFO_SECTOR + BACKUP_SECTOR)) :: ufat_block_t"
  show ?thesis
  proof (cases rule: dev_write_cases [of dev ?b1 ?buf])
    case (1 dev')
    with le io_ok_fail [OF 1] show ?thesis by (simp add: asserts_ok_def write_fsinfo_def Let_def)
  next
    case w1: (2 dev')
    show ?thesis
    proof (cases rule: dev_write_cases [of dev' ?b2 ?buf])
      case (1 dev'')
      with le w1 io_ok_step [OF w1 io_ok_fail [OF 1]] show ?thesis
        by (simp add: asserts_ok_def write_fsinfo_def Let_def)
    next
      case (2 dev'')
      with le w1 io_ok_step [OF w1 io_ok_step [OF 2 io_ok_refl]] show ?thesis
        by (simp add: asserts_ok_def write_fsinfo_def Let_def)
    qed
  qed
qed

lemma buf_fits: "2 ^ l \<le> BUF_BLOCK_SIZE \<longleftrightarrow> l \<le> 10"
proof -
  have "(2::nat) ^ l \<le> 2 ^ 10 \<longleftrightarrow> l \<le> 10"
    by (rule power_increasing_iff) simp
  then show ?thesis by (simp add: BUF_BLOCK_SIZE_def)
qed

lemma io_seq:
  assumes "io_ok dev r1" and "\<And>d. r1 = (Inr (), d) \<Longrightarrow> io_ok d (k d)"
  shows "io_ok dev (case r1 of (Inl e, d) \<Rightarrow> (Inl e, d) | (Inr u, d) \<Rightarrow> k d)"
proof (cases r1)
  case (Pair st d)
  show ?thesis
  proof (cases st)
    case (Inl e)
    with Pair assms(1) show ?thesis by simp
  next
    case (Inr u)
    with Pair assms(1) have "io_ok dev (Inr (), d)" by simp
    moreover from Pair Inr assms(2) have "io_ok d (k d)" by simp
    ultimately have "io_ok dev (k d)" by (rule io_ok_trans)
    with Pair Inr show ?thesis by simp
  qed
qed

lemma asserts_io: "asserts_ok dev r \<Longrightarrow> log2_block_size dev \<le> 10 \<Longrightarrow> io_ok dev r"
  by (simp add: asserts_ok_def buf_fits)

lemma io_ok_lbs: "io_ok dev (Inr (), d) \<Longrightarrow> log2_block_size d = log2_block_size dev"
  by (simp add: io_ok_def)

lemma mkfs_io:
  assumes le: "log2_block_size dev \<le> 10"
  shows "io_ok dev (ufat_mkfs stk dev nblk)"
proof -
  let ?fl = "c_fl (layout_body nblk (log2_block_size dev))"
  have cl: "calculate_layout nblk (log2_block_size dev) = Inr ?fl"
    using le by (simp add: calculate_layout_def)
  have 1: "io_ok dev (erase_reserved_blocks stk dev ?fl)"
    unfolding erase_reserved_blocks_def using erase_blocks_io le by (rule asserts_io)
  have last: "io_ok d (write_bpb stk d ?fl)" if "log2_block_size d \<le> 10" for d
    using write_bpb_io that by (rule asserts_io)
  have fsi: "io_ok d (if fs_type ?fl = UFAT_TYPE_FAT32
                then (case write_fsinfo stk d ?fl of (Inl e, d4) \<Rightarrow> (Inl e, d4)
                        | (Inr u, d4) \<Rightarrow> write_bpb stk d4 ?fl)
                else write_bpb stk d ?fl)" if d: "log2_block_size d \<le> 10" for d
  proof (cases "fs_type ?fl = UFAT_TYPE_FAT32")
    case True
    have "io_ok d (write_fsinfo stk d ?fl)" using write_fsinfo_io d by (rule asserts_io)
    then have "io_ok d (case write_fsinfo stk d ?fl of (Inl e, d4) \<Rightarrow> (Inl e, d4)
                        | (Inr u, d4) \<Rightarrow> write_bpb stk d4 ?fl)"
    proof (rule io_seq)
      fix d4 assume "write_fsinfo stk d ?fl = (Inr (), d4)"
      with \<open>io_ok d (write_fsinfo stk d ?fl)\<close> have "log2_block_size d4 \<le> 10"
        using d by (simp add: io_ok_def)
      then show "io_ok d4 (write_bpb stk d4 ?fl)" by (rule last)
    qed
    with True show ?thesis by simp
  next
    case False
    with last [OF d] show ?thesis by simp
  qed
  have root: "io_ok d (if fs_type ?fl = UFAT_TYPE_FAT32 then init_root_cluster stk d ?fl
                       else init_root_blocks stk d ?fl)" if d: "log2_block_size d \<le> 10" for d
    using erase_blocks_io [THEN asserts_io, OF d]
    by (simp add: init_root_cluster_def init_root_blocks_def)
  have "io_ok dev (case erase_reserved_blocks stk dev ?fl of
           (Inl e, dev1) \<Rightarrow> (Inl e, dev1)
         | (Inr u, dev1) \<Rightarrow>
            (case init_fat stk dev1 ?fl of
               (Inl e, dev2) \<Rightarrow> (Inl e, dev2)
             | (Inr u, dev2) \<Rightarrow>
                (case (if fs_type ?fl = UFAT_TYPE_FAT32 then init_root_cluster stk dev2 ?fl
                       else init_root_blocks stk dev2 ?fl) of
                   (Inl e, dev3) \<Rightarrow> (Inl e, dev3)
                 | (Inr u, dev3) \<Rightarrow>
                    (if fs_type ?fl = UFAT_TYPE_FAT32
                     then (case write_fsinfo stk dev3 ?fl of
                             (Inl e, dev4) \<Rightarrow> (Inl e, dev4)
                           | (Inr u, dev4) \<Rightarrow> write_bpb stk dev4 ?fl)
                     else write_bpb stk dev3 ?fl))))"
    using 1
  proof (rule io_seq)
    fix d1 assume e1: "erase_reserved_blocks stk dev ?fl = (Inr (), d1)"
    with 1 le have d1: "log2_block_size d1 \<le> 10" by (simp add: io_ok_def)
    have 2: "io_ok d1 (init_fat stk d1 ?fl)" using init_fat_io d1 by (rule asserts_io)
    then show "io_ok d1 (case init_fat stk d1 ?fl of
               (Inl e, dev2) \<Rightarrow> (Inl e, dev2)
             | (Inr u, dev2) \<Rightarrow>
                (case (if fs_type ?fl = UFAT_TYPE_FAT32 then init_root_cluster stk dev2 ?fl
                       else init_root_blocks stk dev2 ?fl) of
                   (Inl e, dev3) \<Rightarrow> (Inl e, dev3)
                 | (Inr u, dev3) \<Rightarrow>
                    (if fs_type ?fl = UFAT_TYPE_FAT32
                     then (case write_fsinfo stk dev3 ?fl of
                             (Inl e, dev4) \<Rightarrow> (Inl e, dev4)
                           | (Inr u, dev4) \<Rightarrow> write_bpb stk dev4 ?fl)
                     else write_bpb stk dev3 ?fl)))"
    proof (rule io_seq)
      fix d2 assume e2: "init_fat stk d1 ?fl = (Inr (), d2)"
      with 2 d1 have d2: "log2_block_size d2 \<le> 10" by (simp add: io_ok_def)
      from root [OF d2]
      show "io_ok d2 (case (if fs_type ?fl = UFAT_TYPE_FAT32 then init_root_cluster stk d2 ?fl
                       else init_root_blocks stk d2 ?fl) of
                   (Inl e, dev3) \<Rightarrow> (Inl e, dev3)
                 | (Inr u, dev3) \<Rightarrow>
                    (if fs_type ?fl = UFAT_TYPE_FAT32
                     then (case write_fsinfo stk dev3 ?fl of
                             (Inl e, dev4) \<Rightarrow> (Inl e, dev4)
                           | (Inr u, dev4) \<Rightarrow> write_bpb stk dev4 ?fl)
                     else write_bpb stk dev3 ?fl))"
      proof (rule io_seq)
        fix d3 assume "(if fs_type ?fl = UFAT_TYPE_FAT32 then init_root_cluster stk d2 ?fl
                       else init_root_blocks stk d2 ?fl) = (Inr (), d3)"
        with root [OF d2] d2 have "log2_block_size d3 \<le> 10" by (simp add: io_ok_def)
        then show "io_ok d3 (if fs_type ?fl = UFAT_TYPE_FAT32
                     then (case write_fsinfo stk d3 ?fl of
                             (Inl e, dev4) \<Rightarrow> (Inl e, dev4)
                           | (Inr u, dev4) \<Rightarrow> write_bpb stk dev4 ?fl)
                     else write_bpb stk d3 ?fl)" by (rule fsi)
      qed
    qed
  qed
  then show ?thesis by (simp add: ufat_mkfs_def cl)
qed

lemma mkfs_assert:
  assumes "10 < log2_block_size dev" "log2_block_size dev \<le> 12"
  shows "ufat_mkfs stk dev nblk = (Inl ASSERT_FAILED, dev)"
proof -
  let ?fl = "c_fl (layout_body nblk (log2_block_size dev))"
  have cl: "calculate_layout nblk (log2_block_size dev) = Inr ?fl"
    using assms by (simp add: calculate_layout_def)
  have "erase_reserved_blocks stk dev ?fl = (Inl ASSERT_FAILED, dev)"
    using erase_blocks_io [of dev stk 0 "reserved_blocks ?fl"] assms
    by (simp add: erase_reserved_blocks_def asserts_ok_def buf_fits)
  then show ?thesis by (simp add: ufat_mkfs_def cl)
qed

lemma mkfs_block_size:
  assumes "12 < log2_block_size dev"
  shows "ufat_mkfs stk dev nblk = (Inl UFAT_ERR_BLOCK_SIZE, dev)"
  using assms by (simp add: ufat_mkfs_def calculate_layout_def)

lemma pow_gt_4096: "(4096::nat) < 2 ^ l \<longleftrightarrow> 12 < l"
proof -
  have "(2::nat) ^ 12 < 2 ^ l \<longleftrightarrow> 12 < l"
    by (rule power_strict_increasing_iff) simp
  then show ?thesis by simp
qed

lemma asserts_ok_Inr:
  assumes "asserts_ok dev r" "r = (Inr (), d)"
  shows "log2_block_size d = log2_block_size dev \<and> log2_block_size dev \<le> 10 \<and>
         dev_fails d = dev_fails dev"
  using assms by (auto simp: asserts_ok_def io_ok_def buf_fits split: if_splits)

lemma write_bpb_block0:
  assumes "write_bpb stk d fl = (Inr (), d')"
  shows "dev_blocks d' 0 = map (bpb_buf stk (log2_block_size d) fl) [0 ..< 2 ^ log2_block_size d]"
proof -
  let ?buf = "bpb_buf stk (log2_block_size d) fl"
  let ?img = "map ?buf [0 ..< 2 ^ log2_block_size d]"
  from asserts_ok_Inr [OF write_bpb_io assms] have le: "2 ^ log2_block_size d \<le> BUF_BLOCK_SIZE"
    by (simp add: buf_fits)
  show ?thesis
  proof (cases rule: dev_write_cases [of d 0 ?buf])
    case (1 dev')
    with le assms show ?thesis by (simp add: write_bpb_def Let_def)
  next
    case w1: (2 d1)
    from dev_write_True [OF w1] have b1: "dev_blocks d1 0 = ?img" and l1: "log2_block_size d1 = log2_block_size d"
      by simp_all
    show ?thesis
    proof (cases "fs_type fl = UFAT_TYPE_FAT32")
      case False
      with le w1 assms have "d' = d1" by (simp add: write_bpb_def Let_def)
      with b1 show ?thesis by simp
    next
      case True
      let ?b = "of_nat (drop_bit (usub (log2_sector_size fl) (log2_block_size d)) BACKUP_SECTOR) :: ufat_block_t"
      show ?thesis
      proof (cases rule: dev_write_cases [of d1 ?b ?buf])
        case (1 d2)
        with le w1 True assms show ?thesis by (simp add: write_bpb_def Let_def)
      next
        case (2 d2)
        with le w1 True assms have "d' = d2" by (simp add: write_bpb_def Let_def)
        with dev_write_True [OF 2] b1 l1 show ?thesis by simp
      qed
    qed
  qed
qed

lemma mkfs_success:
  assumes ok: "ufat_mkfs stk dev nblk = (Inr (), dev')"
  obtains d where "log2_block_size d = log2_block_size dev"
    and "log2_block_size dev \<le> 10"
    and "write_bpb stk d (c_fl (layout_body nblk (log2_block_size dev))) = (Inr (), dev')"
proof -
  let ?fl = "c_fl (layout_body nblk (log2_block_size dev))"
  have le12: "log2_block_size dev \<le> 12"
    using ok by (cases "log2_block_size dev \<le> 12") (simp_all add: ufat_mkfs_def calculate_layout_def)
  then have cl: "calculate_layout nblk (log2_block_size dev) = Inr ?fl"
    by (simp add: calculate_layout_def)
  from ok cl obtain d1 where e1: "erase_reserved_blocks stk dev ?fl = (Inr (), d1)"
    by (auto simp: ufat_mkfs_def split: sum.splits prod.splits)
  from asserts_ok_Inr [OF erase_blocks_io e1 [unfolded erase_reserved_blocks_def]]
  have l1: "log2_block_size d1 = log2_block_size dev" and le: "log2_block_size dev \<le> 10" by simp_all
  from ok cl e1 obtain d2 where e2: "init_fat stk d1 ?fl = (Inr (), d2)"
    by (auto simp: ufat_mkfs_def split: sum.splits prod.splits)
  from asserts_ok_Inr [OF init_fat_io e2] l1
  have l2: "log2_block_size d2 = log2_block_size dev" by simp
  from ok cl e1 e2 obtain d3 where
    e3: "(if fs_type ?fl = UFAT_TYPE_FAT32 then init_root_cluster stk d2 ?fl
          else init_root_blocks stk d2 ?fl) = (Inr (), d3)"
    by (auto simp: ufat_mkfs_def split: sum.splits prod.splits)
  have "asserts_ok d2 (if fs_type ?fl = UFAT_TYPE_FAT32 then init_root_cluster stk d2 ?fl
          else init_root_blocks stk d2 ?fl)"
    by (simp add: init_root_cluster_def init_root_blocks_def erase_blocks_io)
  from asserts_ok_Inr [OF this e3] l2
  have l3: "log2_block_size d3 = log2_block_size dev" by simp
  show ?thesis
  proof (cases "fs_type ?fl = UFAT_TYPE_FAT32")
    case False
    with ok cl e1 e2 e3 have "write_bpb stk d3 ?fl = (Inr (), dev')"
      by (simp add: ufat_mkfs_def)
    with l3 le show ?thesis by (rule that)
  next
    case True
    with ok cl e1 e2 e3 obtain d4 where e4: "write_fsinfo stk d3 ?fl = (Inr (), d4)"
      and w: "write_bpb stk d4 ?fl = (Inr (), dev')"
      by (auto simp: ufat_mkfs_def split: sum.splits prod.splits)
    from asserts_ok_Inr [OF write_fsinfo_io e4] l3
    have "log2_block_size d4 = log2_block_size dev" by simp
    then show ?thesis using le w by (rule that)
  qed
qed

lemma mkfs_block0:
  assumes "ufat_mkfs stk dev nblk = (Inr (), dev')"
  shows "dev_blocks dev' 0 =
           map (bpb_buf stk (log2_block_size dev) (c_fl (layout_body nblk (log2_block_size dev))))
               [0 ..< 2 ^ log2_block_size dev]"
proof -
  from assms obtain d where "log2_block_size d = log2_block_size dev"
    and "write_bpb stk d (c_fl (layout_body nblk (log2_block_size dev))) = (Inr (), dev')"
    by (rule mkfs_success)
  with write_bpb_block0 [of stk d _ dev'] show ?thesis by simp
qed

lemma never_fails_dev0: "never_fails (dev0 l)"
  by (simp add: never_fails_def dev0_def)

lemma mkfs_dev0_ok:
  assumes "l \<le> 10"
  shows "fst (ufat_mkfs stk (dev0 l) nblk) = Inr ()"
proof -
  have "io_ok (dev0 l) (ufat_mkfs stk (dev0 l) nblk)"
    by (rule mkfs_io) (simp add: dev0_def assms)
  then show ?thesis by (simp add: io_ok_def never_fails_dev0)
qed

lemma bpb_signature:
  "bpb_buf stk lbs fl 0x1fe = 0x55 \<and> bpb_buf stk lbs fl 0x1ff = 0xaa"
  by (simp add: bpb_buf_def Let_def w16_def w32_def memset_buf_def memcpy_buf_def)

lemma bpb_high_zero:
  "0x200 \<le> i \<Longrightarrow> i < 2 ^ lbs \<Longrightarrow> bpb_buf stk lbs fl i = 0"
  by (simp add: bpb_buf_def Let_def w16_def w32_def memset_buf_def memcpy_buf_def)

lemma layout_40_10: "c_fl (layout_body 40 10) =
       \<lparr>log2_sector_size = 10, log2_bpc = 1, reserved_blocks = 1,
          root_blocks = 17, fat_blocks = 1, logical_blocks = 40,
          clusters = 12, fs_type = UFAT_TYPE_FAT12\<rparr>"
  by code_simp

lemma layout_40_9: "c_fl (layout_body 40 9) =
      \<lparr>log2_sector_size = 9, log2_bpc = 1, reserved_blocks = 1,
          root_blocks = 33, fat_blocks = 1, logical_blocks = 40,
          clusters = 4, fs_type = UFAT_TYPE_FAT12\<rparr>"
  by code_simp

lemma layout_100_8: "c_fl (layout_body 100 8) =
       \<lparr>log2_sector_size = 9, log2_bpc = 2, reserved_blocks = 2,
          root_blocks = 64, fat_blocks = 1, logical_blocks = 100,
          clusters = 10, fs_type = UFAT_TYPE_FAT12\<rparr>"
  by code_simp

lemma sizing_100_8: "layout_sizing 100 8 =
  \<lparr>s_nblk = 100, s_log2_bps = 1, s_nsect = 50, s_type = UFAT_TYPE_FAT12,
     s_threshold = 4096, s_spc0 = 1, s_log2_spc = 1\<rparr>"
  by code_simp

lemma layout_16: "layout_body 16 9 =
  \<lparr>c_est_clusters = 9, c_fat_bytes = 14, c_root_min = 32,
    c_fl = \<lparr>log2_sector_size = 9, log2_bpc = 1, reserved_blocks = 1,
         root_blocks = 18446744069414584353, fat_blocks = 1,
         logical_blocks = 16, clusters = 4294967288,
         fs_type = UFAT_TYPE_FAT12\<rparr>\<rparr>"
  by code_simp

section \<open>Properties of the FAT initializers\<close>

lemma write_all_lbs:
  "write_all dev ws = (Inr (), dev') \<Longrightarrow> log2_block_size dev' = log2_block_size dev"
proof (induction ws arbitrary: dev)
  case Nil
  then show ?case by simp
next
  case (Cons w ws)
  obtain a b where w: "w = (a, b)" by (cases w)
  show ?case
  proof (cases rule: dev_write_cases [of dev a b])
    case (1 d)
    with Cons.prems w show ?thesis by simp
  next
    case (2 d)
    with Cons.prems w have "write_all d ws = (Inr (), dev')" by simp
    from Cons.IH [OF this] dev_write_True [OF 2] show ?thesis by simp
  qed
qed

lemma write_all_other:
  "write_all dev ws = (Inr (), dev') \<Longrightarrow> a \<notin> fst ` set ws \<Longrightarrow>
     dev_blocks dev' a = dev_blocks dev a"
proof (induction ws arbitrary: dev)
  case Nil
  then show ?case by simp
next
  case (Cons w ws)
  obtain a' b where w: "w = (a', b)" by (cases w)
  show ?case
  proof (cases rule: dev_write_cases [of dev a' b])
    case (1 d)
    with Cons.prems w show ?thesis by simp
  next
    case (2 d)
    with Cons.prems w have r: "write_all d ws = (Inr (), dev')" by simp
    from Cons.prems w have "a \<notin> fst ` set ws" "a \<noteq> a'" by auto
    with Cons.IH [OF r] dev_write_True [OF 2] show ?thesis by simp
  qed
qed

lemma write_all_block:
  "write_all dev ws = (Inr (), dev') \<Longrightarrow> distinct (map fst ws) \<Longrightarrow> (a, b) \<in> set ws \<Longrightarrow>
     dev_blocks dev' a = map b [0 ..< 2 ^ log2_block_size dev]"
proof (induction ws arbitrary: dev)
  case Nil
  then show ?case by simp
next
  case (Cons w ws)
  obtain a' b' where w: "w = (a', b')" by (cases w)
  show ?case
  proof (cases rule: dev_write_cases [of dev a' b'])
    case (1 d)
    with Cons.prems w show ?thesis by simp
  next
    case (2 d)
    with Cons.prems w have r: "write_all d ws = (Inr (), dev')" by simp
    note wt = dev_write_True [OF 2]
    show ?thesis
    proof (cases "(a, b) \<in> set ws")
      case True
      from Cons.prems(2) have "distinct (map fst ws)" by simp
      from Cons.IH [OF r this True] wt show ?thesis by simp
    next
      case False
      with Cons.prems(3) w have ab: "a = a'" "b = b'" by auto
      from Cons.prems(2) w ab have "a \<notin> fst ` set ws" by auto
      from write_all_other [OF r this] wt ab show ?thesis by simp
    qed
  qed
qed

lemma fat12_fill_spec:
  "j \<le> bs \<Longrightarrow> mb = (base + j) mod 3 \<Longrightarrow> cp = of_nat ((base + j) div 3) \<Longrightarrow>
   fat12_fill cl bs buf mb cp j =
     (\<lambda>i. if j \<le> i \<and> i < bs then raw12 cl (base + i) else buf i,
      (base + bs) mod 3, of_nat ((base + bs) div 3))"
proof (induction "bs - j" arbitrary: j mb cp buf)
  case 0
  then have "j = bs" by simp
  with 0 show ?case by (subst fat12_fill.simps) (auto simp: fun_eq_iff)
next
  case (Suc n)
  then have lt: "j < bs" by simp
  let ?buf = "buf(j := ucast (drop_bit (push_bit 3 mb) (pair_data_of cl cp)))"
  have b: "?buf = buf(j := raw12 cl (base + j))"
    using Suc.prems by (simp add: raw12_def push_bit_eq_mult mult.commute)
  have upd: "(\<lambda>i. if j + 1 \<le> i \<and> i < bs then raw12 cl (base + i) else (buf(j := raw12 cl (base + j))) i)
           = (\<lambda>i. if j \<le> i \<and> i < bs then raw12 cl (base + i) else buf i)"
    using lt by (auto simp: fun_eq_iff)
  show ?case
  proof (cases "mb + 1 \<ge> 3")
    case True
    with Suc.prems have m2: "(base + j) mod 3 = 2" by simp
    then have nm: "(base + (j + 1)) mod 3 = 0" and nd: "(base + (j + 1)) div 3 = (base + j) div 3 + 1"
      by presburger+
    have "fat12_fill cl bs buf mb cp j = fat12_fill cl bs ?buf 0 (cp + 1) (j + 1)"
      using lt True by (subst fat12_fill.simps) (simp add: Let_def)
    also have "\<dots> = (\<lambda>i. if j + 1 \<le> i \<and> i < bs then raw12 cl (base + i) else ?buf i,
      (base + bs) mod 3, of_nat ((base + bs) div 3))"
      using Suc.hyps(2) lt Suc.prems nm nd by (intro Suc.hyps(1)) simp_all
    finally show ?thesis by (simp only: b upd)
  next
    case False
    with Suc.prems have m2: "(base + j) mod 3 < 2" by simp
    then have nm: "(base + (j + 1)) mod 3 = (base + j) mod 3 + 1" and nd: "(base + (j + 1)) div 3 = (base + j) div 3"
      by presburger+
    have "fat12_fill cl bs buf mb cp j = fat12_fill cl bs ?buf (mb + 1) cp (j + 1)"
      using lt False by (subst fat12_fill.simps) (simp add: Let_def)
    also have "\<dots> = (\<lambda>i. if j + 1 \<le> i \<and> i < bs then raw12 cl (base + i) else ?buf i,
      (base + bs) mod 3, of_nat ((base + bs) div 3))"
      using Suc.hyps(2) lt Suc.prems nm nd by (intro Suc.hyps(1)) simp_all
    finally show ?thesis by (simp only: b upd)
  qed
qed

lemma fat12_body_spec:
  assumes bs: "3 \<le> bs"
    and b: "b = (if block = unat (fat_blocks fl) then 0 else block)"
    and inv: "block = unat (fat_blocks fl) \<or>
              (mb = (block * bs) mod 3 \<and> cp = of_nat ((block * bs) div 3))"
  shows "fat12_body stk bs fl block mb cp =
           (b, table_buf (fat12_byte (clusters fl)) stk bs b,
            ((b + 1) * bs) mod 3, of_nat (((b + 1) * bs) div 3))"
proof -
  let ?cl = "clusters fl"
  let ?z = "memset_buf stk 0 0 bs"
  let ?F = "\<lambda>i. if 0 \<le> i \<and> i < bs then raw12 ?cl (b * bs + i) else ?z i"
  have st: "(if block = unat (fat_blocks fl) then (0, 0, 0) else (block, mb, cp))
              = (b, (b * bs) mod 3, of_nat ((b * bs) div 3))"
    using b inv by auto
  have "fat12_fill ?cl bs ?z ((b * bs) mod 3) (of_nat ((b * bs) div 3)) 0 =
     (?F, (b * bs + bs) mod 3, of_nat ((b * bs + bs) div 3))"
    by (rule fat12_fill_spec) simp_all
  moreover have "b * bs + bs = (b + 1) * bs" by simp
  ultimately have fill: "fat12_fill ?cl bs ?z ((b * bs) mod 3) (of_nat ((b * bs) div 3)) 0 =
     (?F, ((b + 1) * bs) mod 3, of_nat (((b + 1) * bs) div 3))"
    by (simp only:)
  have buf: "(if b = 0 then ?F(0 := MEDIA_DISK, 1 := 0x8f, 2 := 0xff) else ?F)
           = table_buf (fat12_byte ?cl) stk bs b" (is "?l = ?r")
  proof
    fix i
    show "?l i = ?r i"
    proof (cases "b = 0")
      case True
      with bs show ?thesis
        by (auto simp: table_buf_def fat12_byte_def memset_buf_def MEDIA_DISK_def nth_Cons'
            split: if_splits)
    next
      case False
      then have "0 < b" by simp
      then have "bs \<le> b * bs" by simp
      with bs have "\<not> b * bs + i < 3" by linarith
      with False show ?thesis
        by (simp add: table_buf_def fat12_byte_def memset_buf_def)
    qed
  qed
  show ?thesis
    unfolding fat12_body_def Let_def st prod.case fill buf ..
qed

lemma table_writes_step:
  "i < 2 * unat (fat_blocks fl) \<Longrightarrow>
   table_writes byte stk bs fl i =
     (reserved_blocks fl + of_nat i, table_buf byte stk bs (i mod unat (fat_blocks fl)))
       # table_writes byte stk bs fl (i + 1)"
  by (simp add: table_writes_def upt_conv_Cons)

lemma table_writes_done:
  "\<not> i < 2 * unat (fat_blocks fl) \<Longrightarrow> table_writes byte stk bs fl i = []"
  by (simp add: table_writes_def)

lemma block_at_reset:
  "i < 2 * unat (fat_blocks fl) \<Longrightarrow> block = block_at fl i \<Longrightarrow>
   i mod unat (fat_blocks fl) = (if block = unat (fat_blocks fl) then 0 else block)"
  by (auto simp: block_at_def not_le mod_if)

lemma block_at_next:
  "i < 2 * unat (fat_blocks fl) \<Longrightarrow> block_at fl (i + 1) = i mod unat (fat_blocks fl) + 1"
  by (auto simp: block_at_def not_le mod_if)

lemma block_at_less:
  "i < 2 * unat (fat_blocks fl) \<Longrightarrow> block_at fl (i + 1) = unat (fat_blocks fl) \<or> block_at fl (i + 1) = block_at fl (i + 1)"
  by simp

lemma fat12_loop_writes:
  assumes "3 \<le> (2::nat) ^ log2_block_size dev"
    and "unat (fat_blocks fl * 2) = 2 * unat (fat_blocks fl)"
    and "block = block_at fl i"
    and "block = unat (fat_blocks fl) \<or>
         (mb = (block * 2 ^ log2_block_size dev) mod 3 \<and>
          cp = of_nat ((block * 2 ^ log2_block_size dev) div 3))"
  shows "fat12_loop stk dev fl i block mb cp =
           write_all dev (table_writes (fat12_byte (clusters fl)) stk (2 ^ log2_block_size dev) fl i)"
  using assms
proof (induction stk dev fl i block mb cp rule: fat12_loop.induct)
  case (1 stk dev fl i block mb cp)
  let ?bs = "(2::nat) ^ log2_block_size dev"
  let ?fb = "unat (fat_blocks fl)"
  let ?byte = "fat12_byte (clusters fl)"
  show ?case
  proof (cases "i < unat (fat_blocks fl * 2)")
    case False
    with "1.prems"(2) have "\<not> i < 2 * ?fb" by simp
    from table_writes_done [OF this] False show ?thesis
      by (subst fat12_loop.simps) simp
  next
    case True
    with "1.prems"(2) have lt: "i < 2 * ?fb" by simp
    let ?b = "i mod ?fb"
    have reset: "?b = (if block = ?fb then 0 else block)"
      using lt "1.prems"(3) by (rule block_at_reset)
    have body: "fat12_body stk ?bs fl block mb cp =
        (?b, table_buf ?byte stk ?bs ?b, ((?b + 1) * ?bs) mod 3, of_nat (((?b + 1) * ?bs) div 3))"
      using "1.prems"(1) reset "1.prems"(4) by (rule fat12_body_spec)
    let ?a = "reserved_blocks fl + of_nat i"
    let ?buf = "table_buf ?byte stk ?bs ?b"
    show ?thesis
    proof (cases rule: dev_write_cases [of dev ?a ?buf])
      case (1 dev')
      with True body table_writes_step [OF lt, of ?byte stk ?bs] show ?thesis
        by (subst fat12_loop.simps) simp
    next
      case (2 dev')
      from dev_write_True [OF 2] have l: "log2_block_size dev' = log2_block_size dev" by simp
      have p1: "3 \<le> (2::nat) ^ log2_block_size dev'" using "1.prems"(1) l by simp
      have p3: "?b + 1 = block_at fl (i + 1)" using block_at_next [OF lt] by simp
      have p4: "?b + 1 = ?fb \<or>
              ((?b + 1) * ?bs) mod 3 = ((?b + 1) * 2 ^ log2_block_size dev') mod 3 \<and>
              (of_nat (((?b + 1) * ?bs) div 3) :: uint32_t) =
                 of_nat (((?b + 1) * 2 ^ log2_block_size dev') div 3)"
        using l by simp
      have "fat12_loop stk dev' fl (i + 1) (?b + 1) (((?b + 1) * ?bs) mod 3)
                (of_nat (((?b + 1) * ?bs) div 3)) =
            write_all dev' (table_writes ?byte stk (2 ^ log2_block_size dev') fl (i + 1))"
        by (rule "1.IH" [OF True body [symmetric] refl refl 2 [symmetric] refl p1 "1.prems"(2) p3 p4])
      with True body 2 l table_writes_step [OF lt, of ?byte stk ?bs] show ?thesis
        by (subst fat12_loop.simps) simp
    qed
  qed
qed

lemma byte_fff7: "(ucast (0xfff7 :: uint16_t) :: uint8_t) = 0xf7"
  "(ucast (drop_bit 8 (0xfff7 :: uint16_t)) :: uint8_t) = 0xff"
  by code_simp+

lemma byte_fff8: "(ucast (0xfff8 :: uint16_t) :: uint8_t) = 0xf8"
  "(ucast (drop_bit 8 (0xfff8 :: uint16_t)) :: uint8_t) = 0xff"
  "(0xff00 OR ucast MEDIA_DISK :: uint16_t) = 0xfff8"
  by code_simp+

lemma w16_fff7: "w16 buf j 0xfff7 = buf(j := 0xf7, j + 1 := 0xff)"
  by (simp only: w16_def byte_fff7)

lemma w16_other: "i \<noteq> off \<Longrightarrow> i \<noteq> off + 1 \<Longrightarrow> w16 buf off v i = buf i"
  by (simp add: w16_def)

lemma fat16_fill_spec:
  "j \<le> bs \<Longrightarrow> even j \<Longrightarrow> even bs \<Longrightarrow> even base \<Longrightarrow> c = of_nat ((base + j) div 2) \<Longrightarrow>
   (\<And>i. j \<le> i \<Longrightarrow> i < bs \<Longrightarrow> buf i = 0) \<Longrightarrow>
   fat16_fill cl bs buf c j =
     (\<lambda>i. if j \<le> i \<and> i < bs then raw16 cl (base + i) else buf i, of_nat ((base + bs) div 2))"
proof (induction "bs - j" arbitrary: j c buf rule: less_induct)
  case less
  show ?case
  proof (cases "j < bs")
    case False
    with less.prems have "j = bs" by simp
    then show ?thesis using less.prems by (subst fat16_fill.simps) (auto simp: fun_eq_iff)
  next
    case True
    with less.prems have j2: "j + 2 \<le> bs" by (auto elim!: evenE)
    let ?buf = "if cl \<le> c then w16 buf j 0xfff7 else buf"
    have d: "(base + (j + 2)) div 2 = (base + j) div 2 + 1" by simp
    have div1: "(base + (j + 1)) div 2 = (base + j) div 2"
      using less.prems by (auto elim!: evenE)
    have z: "?buf i = 0" if "j + 2 \<le> i" "i < bs" for i
    proof -
      from that have "buf i = 0" by (intro less.prems(6)) simp_all
      moreover from that have "w16 buf j 0xfff7 i = buf i" by (intro w16_other) simp_all
      ultimately show ?thesis by simp
    qed
    have "fat16_fill cl bs buf c j = fat16_fill cl bs ?buf (c + 1) (j + 2)"
      using True by (subst fat16_fill.simps) simp
    also have "\<dots> = (\<lambda>i. if j + 2 \<le> i \<and> i < bs then raw16 cl (base + i) else ?buf i,
                       of_nat ((base + bs) div 2))"
    proof (rule less.hyps)
      show "bs - (j + 2) < bs - j" using True by simp
      show "j + 2 \<le> bs" by (rule j2)
      show "even (j + 2)" using less.prems by simp
      show "even bs" "even base" using less.prems by simp_all
      show "c + 1 = of_nat ((base + (j + 2)) div 2)" using less.prems d by simp
      show "\<And>i. j + 2 \<le> i \<Longrightarrow> i < bs \<Longrightarrow> ?buf i = 0" by (rule z)
    qed
    also have "(\<lambda>i. if j + 2 \<le> i \<and> i < bs then raw16 cl (base + i) else ?buf i)
             = (\<lambda>i. if j \<le> i \<and> i < bs then raw16 cl (base + i) else buf i)"
    proof
      fix i
      consider "i < j" | "i = j" | "i = j + 1" | "j + 2 \<le> i" by linarith
      then show "(if j + 2 \<le> i \<and> i < bs then raw16 cl (base + i) else ?buf i)
               = (if j \<le> i \<and> i < bs then raw16 cl (base + i) else buf i)"
      proof cases
        case 1
        then show ?thesis by (simp add: w16_fff7)
      next
        case 2
        with True less.prems show ?thesis by (simp add: w16_fff7 raw16_def)
      next
        case 3
        with j2 less.prems div1 less.prems(6) [of "j + 1"] show ?thesis
          by (simp add: w16_fff7 raw16_def)
      next
        case 4
        then have "w16 buf j 0xfff7 i = buf i" by (intro w16_other) simp_all
        with 4 show ?thesis by simp
      qed
    qed
    finally show ?thesis .
  qed
qed

lemma w16_fff8: "w16 (w16 buf 0 (0xff00 OR ucast MEDIA_DISK)) 2 0xfff8 =
                 buf(0 := 0xf8, 0 + 1 := 0xff, 2 := 0xf8, 2 + 1 := 0xff)"
  by (simp only: w16_def byte_fff8)

lemma fat16_body_spec:
  assumes bs: "4 \<le> bs" "even bs"
    and b: "b = (if block = unat (fat_blocks fl) then 0 else block)"
    and inv: "block = unat (fat_blocks fl) \<or> c = of_nat ((block * bs) div 2)"
  shows "fat16_body stk bs fl block c =
           (b, table_buf (fat16_byte (clusters fl)) stk bs b, of_nat (((b + 1) * bs) div 2))"
proof -
  let ?cl = "clusters fl"
  let ?z = "memset_buf stk 0 0 bs"
  let ?F = "\<lambda>i. if 0 \<le> i \<and> i < bs then raw16 ?cl (b * bs + i) else ?z i"
  have st: "(if block = unat (fat_blocks fl) then (0, 0) else (block, c))
              = (b, of_nat ((b * bs) div 2))"
    using b inv by auto
  have "fat16_fill ?cl bs ?z (of_nat ((b * bs) div 2)) 0 = (?F, of_nat ((b * bs + bs) div 2))"
    using bs by (intro fat16_fill_spec) (simp_all add: memset_buf_def)
  moreover have "b * bs + bs = (b + 1) * bs" by simp
  ultimately have fill: "fat16_fill ?cl bs ?z (of_nat ((b * bs) div 2)) 0 =
     (?F, of_nat (((b + 1) * bs) div 2))"
    by (simp only:)
  have buf: "(if b = 0 then w16 (w16 ?F 0 (0xff00 OR ucast MEDIA_DISK)) 2 0xfff8 else ?F)
           = table_buf (fat16_byte ?cl) stk bs b" (is "?l = ?r")
  proof
    fix i
    show "?l i = ?r i"
    proof (cases "b = 0")
      case True
      with bs show ?thesis
        by (auto simp: w16_fff8 table_buf_def fat16_byte_def memset_buf_def nth_Cons'
            split: if_splits)
    next
      case False
      then have "0 < b" by simp
      then have "bs \<le> b * bs" by simp
      with bs have "\<not> b * bs + i < 4" by linarith
      with False show ?thesis
        by (simp add: table_buf_def fat16_byte_def memset_buf_def)
    qed
  qed
  show ?thesis
    unfolding fat16_body_def Let_def st prod.case fill buf ..
qed

lemma fat16_loop_writes:
  assumes "4 \<le> (2::nat) ^ log2_block_size dev"
    and "even ((2::nat) ^ log2_block_size dev)"
    and "unat (fat_blocks fl * 2) = 2 * unat (fat_blocks fl)"
    and "block = block_at fl i"
    and "block = unat (fat_blocks fl) \<or>
         c = of_nat ((block * 2 ^ log2_block_size dev) div 2)"
  shows "fat16_loop stk dev fl i block c =
           write_all dev (table_writes (fat16_byte (clusters fl)) stk (2 ^ log2_block_size dev) fl i)"
  using assms
proof (induction stk dev fl i block c rule: fat16_loop.induct)
  case (1 stk dev fl i block c)
  let ?bs = "(2::nat) ^ log2_block_size dev"
  let ?fb = "unat (fat_blocks fl)"
  let ?byte = "fat16_byte (clusters fl)"
  show ?case
  proof (cases "i < unat (fat_blocks fl * 2)")
    case False
    with "1.prems"(3) have "\<not> i < 2 * ?fb" by simp
    from table_writes_done [OF this] False show ?thesis
      by (subst fat16_loop.simps) simp
  next
    case True
    with "1.prems"(3) have lt: "i < 2 * ?fb" by simp
    let ?b = "i mod ?fb"
    have reset: "?b = (if block = ?fb then 0 else block)"
      using lt "1.prems"(4) by (rule block_at_reset)
    have body: "fat16_body stk ?bs fl block c =
        (?b, table_buf ?byte stk ?bs ?b, of_nat (((?b + 1) * ?bs) div 2))"
      using "1.prems"(1,2) reset "1.prems"(5) by (rule fat16_body_spec)
    let ?a = "reserved_blocks fl + of_nat i"
    let ?buf = "table_buf ?byte stk ?bs ?b"
    show ?thesis
    proof (cases rule: dev_write_cases [of dev ?a ?buf])
      case (1 dev')
      with True body table_writes_step [OF lt, of ?byte stk ?bs] show ?thesis
        by (subst fat16_loop.simps) simp
    next
      case (2 dev')
      from dev_write_True [OF 2] have l: "log2_block_size dev' = log2_block_size dev" by simp
      have p1: "4 \<le> (2::nat) ^ log2_block_size dev'" using "1.prems"(1) l by simp
      have p2: "even ((2::nat) ^ log2_block_size dev')" using "1.prems"(2) l by simp
      have p3: "?b + 1 = block_at fl (i + 1)" using block_at_next [OF lt] by simp
      have p4: "?b + 1 = ?fb \<or>
              (of_nat (((?b + 1) * ?bs) div 2) :: uint32_t) =
                 of_nat (((?b + 1) * 2 ^ log2_block_size dev') div 2)"
        using l by simp
      have "fat16_loop stk dev' fl (i + 1) (?b + 1) (of_nat (((?b + 1) * ?bs) div 2)) =
            write_all dev' (table_writes ?byte stk (2 ^ log2_block_size dev') fl (i + 1))"
        by (rule "1.IH" [OF True body [symmetric] refl 2 [symmetric] refl p1 p2 "1.prems"(3) p3 p4])
      with True body 2 l table_writes_step [OF lt, of ?byte stk ?bs] show ?thesis
        by (subst fat16_loop.simps) simp
    qed
  qed
qed

lemma byte_fffffff7: "(ucast (0xfffffff7 :: uint32_t) :: uint8_t) = 0xf7"
  "(ucast (drop_bit 8 (0xfffffff7 :: uint32_t)) :: uint8_t) = 0xff"
  "(ucast (drop_bit 16 (0xfffffff7 :: uint32_t)) :: uint8_t) = 0xff"
  "(ucast (drop_bit 24 (0xfffffff7 :: uint32_t)) :: uint8_t) = 0xff"
  by code_simp+

lemma byte_fffffff8: "(ucast (0xfffffff8 :: uint32_t) :: uint8_t) = 0xf8"
  "(ucast (drop_bit 8 (0xfffffff8 :: uint32_t)) :: uint8_t) = 0xff"
  "(ucast (drop_bit 16 (0xfffffff8 :: uint32_t)) :: uint8_t) = 0xff"
  "(ucast (drop_bit 24 (0xfffffff8 :: uint32_t)) :: uint8_t) = 0xff"
  "(0xffffff00 OR ucast MEDIA_DISK :: uint32_t) = 0xfffffff8"
  by code_simp+

lemma w32_fffffff7:
  "w32 buf j 0xfffffff7 = buf(j := 0xf7, j + 1 := 0xff, j + 2 := 0xff, j + 3 := 0xff)"
  by (simp only: w32_def byte_fffffff7)

lemma w32_other:
  "i \<noteq> off \<Longrightarrow> i \<noteq> off + 1 \<Longrightarrow> i \<noteq> off + 2 \<Longrightarrow> i \<noteq> off + 3 \<Longrightarrow> w32 buf off v i = buf i"
  by (simp add: w32_def)

lemma fat32_fill_spec:
  "j \<le> bs \<Longrightarrow> 4 dvd j \<Longrightarrow> 4 dvd bs \<Longrightarrow> 4 dvd base \<Longrightarrow> c = of_nat ((base + j) div 4) \<Longrightarrow>
   (\<And>i. j \<le> i \<Longrightarrow> i < bs \<Longrightarrow> buf i = 0) \<Longrightarrow>
   fat32_fill cl bs buf c j =
     (\<lambda>i. if j \<le> i \<and> i < bs then raw32 cl (base + i) else buf i, of_nat ((base + bs) div 4))"
proof (induction "bs - j" arbitrary: j c buf rule: less_induct)
  case less
  show ?case
  proof (cases "j < bs")
    case False
    with less.prems have "j = bs" by simp
    then show ?thesis using less.prems by (subst fat32_fill.simps) (auto simp: fun_eq_iff)
  next
    case True
    with less.prems have j4: "j + 4 \<le> bs" by (auto elim!: dvdE)
    let ?buf = "if cl \<le> c then w32 buf j 0xfffffff7 else buf"
    have bj: "4 dvd (base + j)" using less.prems by simp
    have d: "(base + (j + 4)) div 4 = (base + j) div 4 + 1" by simp
    have dk: "(base + (j + k)) div 4 = (base + j) div 4" if "k < 4" for k
      using bj that by presburger
    have mk: "(base + (j + k)) mod 4 = k" if "k < 4" for k
      using bj that by presburger
    have z: "?buf i = 0" if "j + 4 \<le> i" "i < bs" for i
    proof -
      from that have "buf i = 0" by (intro less.prems(6)) simp_all
      moreover from that have "w32 buf j 0xfffffff7 i = buf i" by (intro w32_other) simp_all
      ultimately show ?thesis by simp
    qed
    have "fat32_fill cl bs buf c j = fat32_fill cl bs ?buf (c + 1) (j + 4)"
      using True by (subst fat32_fill.simps) simp
    also have "\<dots> = (\<lambda>i. if j + 4 \<le> i \<and> i < bs then raw32 cl (base + i) else ?buf i,
                       of_nat ((base + bs) div 4))"
    proof (rule less.hyps)
      show "bs - (j + 4) < bs - j" using True by simp
      show "j + 4 \<le> bs" by (rule j4)
      show "4 dvd (j + 4)" using less.prems by simp
      show "4 dvd bs" "4 dvd base" using less.prems by simp_all
      show "c + 1 = of_nat ((base + (j + 4)) div 4)" using less.prems d by simp
      show "\<And>i. j + 4 \<le> i \<Longrightarrow> i < bs \<Longrightarrow> ?buf i = 0" by (rule z)
    qed
    also have "(\<lambda>i. if j + 4 \<le> i \<and> i < bs then raw32 cl (base + i) else ?buf i)
             = (\<lambda>i. if j \<le> i \<and> i < bs then raw32 cl (base + i) else buf i)"
    proof
      fix i
      consider "i < j" | k where "k < 4" "i = j + k" | "j + 4 \<le> i"
      proof -
        have "i < j \<or> (i - j < 4 \<and> i = j + (i - j)) \<or> j + 4 \<le> i" by linarith
        then show ?thesis using that by blast
      qed
      then show "(if j + 4 \<le> i \<and> i < bs then raw32 cl (base + i) else ?buf i)
               = (if j \<le> i \<and> i < bs then raw32 cl (base + i) else buf i)"
      proof cases
        case 1
        then have "w32 buf j 0xfffffff7 i = buf i" by (intro w32_other) simp_all
        with 1 show ?thesis by simp
      next
        case (2 k)
        from 2 j4 have ib: "i < bs" by simp
        with 2 have b0: "buf i = 0" by (intro less.prems(6)) simp_all
        from 2 have "k = 0 \<or> k = 1 \<or> k = 2 \<or> k = 3" by linarith
        then have w: "w32 buf j 0xfffffff7 (j + k) = (if k = 0 then 0xf7 else 0xff)"
          by (auto simp: w32_fffffff7)
        from 2 ib b0 w dk [OF 2(1)] mk [OF 2(1)] less.prems(5) show ?thesis
          by (simp add: raw32_def)
      next
        case 3
        then have "w32 buf j 0xfffffff7 i = buf i" by (intro w32_other) simp_all
        with 3 show ?thesis by simp
      qed
    qed
    finally show ?thesis .
  qed
qed

lemma w32_first:
  "w32 (w32 (w32 buf 0 (0xffffff00 OR ucast MEDIA_DISK)) 4 0xfffffff8) 8 0xfffffff8 =
     buf(0 := 0xf8, 0 + 1 := 0xff, 0 + 2 := 0xff, 0 + 3 := 0xff,
         4 := 0xf8, 4 + 1 := 0xff, 4 + 2 := 0xff, 4 + 3 := 0xff,
         8 := 0xf8, 8 + 1 := 0xff, 8 + 2 := 0xff, 8 + 3 := 0xff)"
  by (simp only: w32_def byte_fffffff8)

lemma fat32_body_spec:
  assumes bs: "12 \<le> bs" "4 dvd bs"
    and b: "b = (if block = unat (fat_blocks fl) then 0 else block)"
    and inv: "block = unat (fat_blocks fl) \<or> c = of_nat ((block * bs) div 4)"
  shows "fat32_body stk bs fl block c =
           (b, table_buf (fat32_byte (clusters fl)) stk bs b, of_nat (((b + 1) * bs) div 4))"
proof -
  let ?cl = "clusters fl"
  let ?z = "memset_buf stk 0 0 bs"
  let ?F = "\<lambda>i. if 0 \<le> i \<and> i < bs then raw32 ?cl (b * bs + i) else ?z i"
  have st: "(if block = unat (fat_blocks fl) then (0, 0) else (block, c))
              = (b, of_nat ((b * bs) div 4))"
    using b inv by auto
  have "fat32_fill ?cl bs ?z (of_nat ((b * bs) div 4)) 0 = (?F, of_nat ((b * bs + bs) div 4))"
    using bs by (intro fat32_fill_spec) (simp_all add: memset_buf_def)
  moreover have "b * bs + bs = (b + 1) * bs" by simp
  ultimately have fill: "fat32_fill ?cl bs ?z (of_nat ((b * bs) div 4)) 0 =
     (?F, of_nat (((b + 1) * bs) div 4))"
    by (simp only:)
  have buf: "(if b = 0
              then w32 (w32 (w32 ?F 0 (0xffffff00 OR ucast MEDIA_DISK)) 4 0xfffffff8) 8 0xfffffff8
              else ?F)
           = table_buf (fat32_byte ?cl) stk bs b" (is "?l = ?r")
  proof
    fix i
    show "?l i = ?r i"
    proof (cases "b = 0")
      case True
      have "i = 0 \<or> i = 1 \<or> i = 2 \<or> i = 3 \<or> i = 4 \<or> i = 5 \<or> i = 6 \<or> i = 7 \<or>
            i = 8 \<or> i = 9 \<or> i = 10 \<or> i = 11 \<or> 12 \<le> i" by presburger
      with True bs show ?thesis
        by (elim disjE) (simp_all add: w32_first table_buf_def fat32_byte_def memset_buf_def)
    next
      case False
      then have "0 < b" by simp
      then have "bs \<le> b * bs" by simp
      with bs have "\<not> b * bs + i < 12" by linarith
      with False show ?thesis
        by (simp add: table_buf_def fat32_byte_def memset_buf_def)
    qed
  qed
  show ?thesis
    unfolding fat32_body_def Let_def st prod.case fill buf ..
qed

lemma fat32_loop_writes:
  assumes "12 \<le> (2::nat) ^ log2_block_size dev"
    and "4 dvd ((2::nat) ^ log2_block_size dev)"
    and "unat (fat_blocks fl * 2) = 2 * unat (fat_blocks fl)"
    and "block = block_at fl i"
    and "block = unat (fat_blocks fl) \<or>
         c = of_nat ((block * 2 ^ log2_block_size dev) div 4)"
  shows "fat32_loop stk dev fl i block c =
           write_all dev (table_writes (fat32_byte (clusters fl)) stk (2 ^ log2_block_size dev) fl i)"
  using assms
proof (induction stk dev fl i block c rule: fat32_loop.induct)
  case (1 stk dev fl i block c)
  let ?bs = "(2::nat) ^ log2_block_size dev"
  let ?fb = "unat (fat_blocks fl)"
  let ?byte = "fat32_byte (clusters fl)"
  show ?case
  proof (cases "i < unat (fat_blocks fl * 2)")
    case False
    with "1.prems"(3) have "\<not> i < 2 * ?fb" by simp
    from table_writes_done [OF this] False show ?thesis
      by (subst fat32_loop.simps) simp
  next
    case True
    with "1.prems"(3) have lt: "i < 2 * ?fb" by simp
    let ?b = "i mod ?fb"
    have reset: "?b = (if block = ?fb then 0 else block)"
      using lt "1.prems"(4) by (rule block_at_reset)
    have body: "fat32_body stk ?bs fl block c =
        (?b, table_buf ?byte stk ?bs ?b, of_nat (((?b + 1) * ?bs) div 4))"
      using "1.prems"(1,2) reset "1.prems"(5) by (rule fat32_body_spec)
    let ?a = "reserved_blocks fl + of_nat i"
    let ?buf = "table_buf ?byte stk ?bs ?b"
    show ?thesis
    proof (cases rule: dev_write_cases [of dev ?a ?buf])
      case (1 dev')
      with True body table_writes_step [OF lt, of ?byte stk ?bs] show ?thesis
        by (subst fat32_loop.simps) simp
    next
      case (2 dev')
      from dev_write_True [OF 2] have l: "log2_block_size dev' = log2_block_size dev" by simp
      have p1: "12 \<le> (2::nat) ^ log2_block_size dev'" using "1.prems"(1) l by simp
      have p2: "4 dvd ((2::nat) ^ log2_block_size dev')" using "1.prems"(2) l by simp
      have p3: "?b + 1 = block_at fl (i + 1)" using block_at_next [OF lt] by simp
      have p4: "?b + 1 = ?fb \<or>
              (of_nat (((?b + 1) * ?bs) div 4) :: uint32_t) =
                 of_nat (((?b + 1) * 2 ^ log2_block_size dev') div 4)"
        using l by simp
      have "fat32_loop stk dev' fl (i + 1) (?b + 1) (of_nat (((?b + 1) * ?bs) div 4)) =
            write_all dev' (table_writes ?byte stk (2 ^ log2_block_size dev') fl (i + 1))"
        by (rule "1.IH" [OF True body [symmetric] refl 2 [symmetric] refl p1 p2 "1.prems"(3) p3 p4])
      with True body 2 l table_writes_step [OF lt, of ?byte stk ?bs] show ?thesis
        by (subst fat32_loop.simps) simp
    qed
  qed
qed

lemma pow_ge_16: "4 \<le> l \<Longrightarrow> (16::nat) \<le> 2 ^ l"
proof -
  assume "4 \<le> l"
  then have "(2::nat) ^ 4 \<le> 2 ^ l" by (rule power_increasing) simp
  then show ?thesis by simp
qed

lemma pow_dvd_4: "4 \<le> l \<Longrightarrow> (4::nat) dvd 2 ^ l"
proof -
  assume "4 \<le> l"
  then have "(2::nat) ^ 2 dvd 2 ^ l" by (intro le_imp_power_dvd) simp
  then show ?thesis by simp
qed

lemma twice_blocks:
  assumes "unat (fb :: ufat_block_t) < 2 ^ 63"
  shows "unat (fb * 2) = 2 * unat fb"
proof -
  have "unat (fb * 2) = (unat fb * 2) mod 2 ^ 64"
    by (simp add: unat_word_ariths)
  also have "\<dots> = unat fb * 2" using assms by simp
  finally show ?thesis by simp
qed

lemma init_fat_writes:
  assumes ok: "init_fat stk dev fl = (Inr (), dev')"
    and l: "4 \<le> log2_block_size dev"
    and fb: "unat (fat_blocks fl) < 2 ^ 63"
  shows "write_all dev (table_writes (fat_byte (fs_type fl) (clusters fl)) stk
                          (2 ^ log2_block_size dev) fl 0) = (Inr (), dev')"
proof -
  note t = twice_blocks [OF fb]
  from pow_ge_16 [OF l] have b16: "(16::nat) \<le> 2 ^ log2_block_size dev" .
  from pow_dvd_4 [OF l] have d4: "(4::nat) dvd 2 ^ log2_block_size dev" .
  from d4 have ev: "even ((2::nat) ^ log2_block_size dev)" using l by auto
  have b0: "0 = block_at fl 0" by (simp add: block_at_def)
  from asserts_ok_Inr [OF init_fat_io ok]
  have le: "2 ^ log2_block_size dev \<le> BUF_BLOCK_SIZE" by (simp add: buf_fits)
  show ?thesis
  proof (cases "fs_type fl")
    case UFAT_TYPE_FAT12
    have "fat12_loop stk dev fl 0 0 0 0 =
            write_all dev (table_writes (fat12_byte (clusters fl)) stk (2 ^ log2_block_size dev) fl 0)"
      using b16 by (intro fat12_loop_writes t b0) simp_all
    with ok le UFAT_TYPE_FAT12 show ?thesis
      by (simp add: init_fat_def init_fat12_def fat_byte_def)
  next
    case UFAT_TYPE_FAT16
    have "fat16_loop stk dev fl 0 0 0 =
            write_all dev (table_writes (fat16_byte (clusters fl)) stk (2 ^ log2_block_size dev) fl 0)"
      using b16 ev by (intro fat16_loop_writes t b0) simp_all
    with ok le UFAT_TYPE_FAT16 show ?thesis
      by (simp add: init_fat_def init_fat16_def fat_byte_def)
  next
    case UFAT_TYPE_FAT32
    have "fat32_loop stk dev fl 0 0 0 =
            write_all dev (table_writes (fat32_byte (clusters fl)) stk (2 ^ log2_block_size dev) fl 0)"
      using b16 d4 by (intro fat32_loop_writes t b0) simp_all
    with ok le UFAT_TYPE_FAT32 show ?thesis
      by (simp add: init_fat_def init_fat32_def fat_byte_def)
  qed
qed

lemma unat_of_nat_64: "unat (of_nat i :: ufat_block_t) = i mod 18446744073709551616"
  by (simp add: unat_of_nat)

lemma of_nat_64_inj:
  assumes "i < 18446744073709551616" "j < 18446744073709551616"
    and "(of_nat i :: ufat_block_t) = of_nat j"
  shows "i = j"
proof -
  from assms(3) have "unat (of_nat i :: ufat_block_t) = unat (of_nat j :: ufat_block_t)" by simp
  then have "i mod 18446744073709551616 = j mod 18446744073709551616"
    by (simp only: unat_of_nat_64)
  with assms(1,2) show ?thesis by simp
qed

lemma table_addresses_distinct:
  assumes n: "n \<le> 18446744073709551616"
  shows "distinct (map (\<lambda>i. (r :: ufat_block_t) + of_nat i) [i0 ..< n])"
proof -
  have "inj_on (\<lambda>i. r + (of_nat i :: ufat_block_t)) (set [i0 ..< n])"
  proof (rule inj_onI)
    fix x y
    assume x: "x \<in> set [i0 ..< n]" and y: "y \<in> set [i0 ..< n]"
      and e: "r + of_nat x = r + (of_nat y :: ufat_block_t)"
    from x n have 1: "x < 18446744073709551616" by simp
    from y n have 2: "y < 18446744073709551616" by simp
    from e have 3: "(of_nat x :: ufat_block_t) = of_nat y" by simp
    from 1 2 3 show "x = y" by (rule of_nat_64_inj)
  qed
  then show ?thesis by (simp add: distinct_map)
qed

lemma table_block:
  assumes w: "write_all dev (table_writes byte stk (2 ^ log2_block_size dev) fl 0) = (Inr (), dev')"
    and fb: "unat (fat_blocks fl) < 2 ^ 63"
    and i: "i < 2 * unat (fat_blocks fl)"
  shows "dev_blocks dev' (reserved_blocks fl + of_nat i) =
           map (\<lambda>j. byte ((i mod unat (fat_blocks fl)) * 2 ^ log2_block_size dev + j))
               [0 ..< 2 ^ log2_block_size dev]"
proof -
  let ?bs = "(2::nat) ^ log2_block_size dev"
  let ?ws = "table_writes byte stk ?bs fl 0"
  let ?buf = "table_buf byte stk ?bs (i mod unat (fat_blocks fl))"
  from fb have "2 * unat (fat_blocks fl) \<le> 18446744073709551616" by simp
  from table_addresses_distinct [OF this, of "reserved_blocks fl" 0]
  have d: "distinct (map fst ?ws)"
    by (simp add: table_writes_def comp_def)
  from i have "i \<in> set [0 ..< 2 * unat (fat_blocks fl)]" by simp
  then have m: "(reserved_blocks fl + of_nat i, ?buf) \<in> set ?ws"
    unfolding table_writes_def set_map by (rule imageI)
  from write_all_block [OF w d m]
  have "dev_blocks dev' (reserved_blocks fl + of_nat i) = map ?buf [0 ..< ?bs]" .
  also have "\<dots> = map (\<lambda>j. byte ((i mod unat (fat_blocks fl)) * ?bs + j)) [0 ..< ?bs]"
    by (simp add: table_buf_def)
  finally show ?thesis .
qed

lemma shifted_block: "map (\<lambda>j. f (m + j)) [0 ..< bs] = map f [m ..< m + bs]"
proof -
  have "map f [m ..< m + bs] = map f (map (\<lambda>j. j + m) [0 ..< bs])"
    by (simp only: map_add_upt add.commute [of m bs])
  also have "\<dots> = map (\<lambda>j. f (j + m)) [0 ..< bs]"
    by (simp only: map_map comp_def)
  also have "\<dots> = map (\<lambda>j. f (m + j)) [0 ..< bs]"
    by (simp only: add.commute [of _ m])
  finally show ?thesis by (rule sym)
qed

lemma concat_blocks:
  "concat (map (\<lambda>b. map (\<lambda>j. f (b * bs + j)) [0 ..< bs]) [0 ..< n]) = map f [0 ..< n * bs]"
proof (induction n)
  case 0
  show ?case by simp
next
  case (Suc n)
  have "[0 ..< n * bs + bs] = [0 ..< n * bs] @ [n * bs ..< n * bs + bs]"
    by (rule upt_add_eq_append) simp
  moreover have "Suc n * bs = n * bs + bs" by simp
  ultimately have split: "map f [0 ..< Suc n * bs] = map f [0 ..< n * bs] @ map f [n * bs ..< n * bs + bs]"
    by (simp only: map_append)
  have "concat (map (\<lambda>b. map (\<lambda>j. f (b * bs + j)) [0 ..< bs]) [0 ..< Suc n])
      = concat (map (\<lambda>b. map (\<lambda>j. f (b * bs + j)) [0 ..< bs]) [0 ..< n])
          @ map (\<lambda>j. f (n * bs + j)) [0 ..< bs]"
    by simp
  also have "\<dots> = map f [0 ..< n * bs] @ map (\<lambda>j. f (n * bs + j)) [0 ..< bs]"
    by (simp only: Suc)
  also have "\<dots> = map f [0 ..< n * bs] @ map f [n * bs ..< n * bs + bs]"
    by (simp only: shifted_block)
  finally show ?case by (simp only: split)
qed

lemma fat_copy_bytes:
  assumes w: "write_all dev (table_writes byte stk (2 ^ log2_block_size dev) fl 0) = (Inr (), dev')"
    and fb: "unat (fat_blocks fl) < 2 ^ 63"
    and k: "k < 2"
  shows "fat_copy dev' fl k = map byte [0 ..< unat (fat_blocks fl) * 2 ^ log2_block_size dev]"
proof -
  let ?fb = "unat (fat_blocks fl)"
  let ?bs = "(2::nat) ^ log2_block_size dev"
  have "dev_blocks dev' (reserved_blocks fl + of_nat (k * ?fb + b)) =
          map (\<lambda>j. byte (b * ?bs + j)) [0 ..< ?bs]" if "b < ?fb" for b
  proof -
    from k that have "k * ?fb + b < 2 * ?fb"
      by (cases "k = 0") (simp_all add: less_2_cases_iff)
    from table_block [OF w fb this] that show ?thesis by simp
  qed
  then have "fat_copy dev' fl k = concat (map (\<lambda>b. map (\<lambda>j. byte (b * ?bs + j)) [0 ..< ?bs]) [0 ..< ?fb])"
    unfolding fat_copy_def by (intro arg_cong [where f = concat] map_cong) simp_all
  then show ?thesis by (simp add: concat_blocks)
qed

lemma le16_map:
  "off + 1 < N \<Longrightarrow> le16 (map f [0 ..< N]) off = unat (f off) + 256 * unat (f (off + 1))"
  by (simp add: le16_def)

lemma le32_map:
  "off + 3 < N \<Longrightarrow> le32 (map f [0 ..< N]) off =
     unat (f off) + 256 * unat (f (off + 1))
       + 65536 * (unat (f (off + 2)) + 256 * unat (f (off + 3)))"
  by (simp add: le32_def le16_def numeral_3_eq_3 add.assoc)

lemma take3_map:
  assumes "m + 3 \<le> N"
  shows "take 3 (drop m (map f [0 ..< N])) = [f m, f (m + 1), f (m + 2)]"
proof -
  have "take 3 (drop m (map f [0 ..< N])) = map f (take 3 (drop m [0 ..< N]))"
    by (simp only: take_map drop_map)
  also have "take 3 (drop m [0 ..< N]) = [m ..< m + 3]"
    using assms by (simp add: take_upt)
  also have "[m ..< m + 3] = [m, m + 1, m + 2]"
    by (simp add: upt_rec numeral_3_eq_3)
  finally show ?thesis by simp
qed

lemma unat_of_nat_32: "n < 4294967296 \<Longrightarrow> unat (of_nat n :: uint32_t) = n"
  by (simp add: unat_of_nat)

lemma cl_le_of_nat:
  "n < 4294967296 \<Longrightarrow> (cl :: ufat_cluster_t) \<le> of_nat n \<longleftrightarrow> unat cl \<le> n"
  by (simp add: word_le_nat_alt unat_of_nat_32)

lemma pair_index:
  "push_bit 1 (of_nat q :: uint32_t) = of_nat (2 * q)"
  "push_bit 1 (of_nat q :: uint32_t) + 1 = of_nat (2 * q + 1)"
  by (simp_all add: push_bit_eq_mult)

lemma pair_data_both:
  "2 * q < 4294967296 \<Longrightarrow> unat cl \<le> 2 * q \<Longrightarrow> pair_data_of cl (of_nat q) = 0xff7ff7"
  by (simp only: pair_data_of_def pair_index cl_le_of_nat if_True)

lemma pair_data_upper:
  assumes "2 * q + 1 < 4294967296" "unat cl = 2 * q + 1"
  shows "pair_data_of cl (of_nat q) = 0xff7000"
proof -
  from assms(1) have "2 * q < 4294967296" by simp
  from cl_le_of_nat [OF this, of cl] assms(2) have a: "\<not> cl \<le> of_nat (2 * q)" by simp
  from cl_le_of_nat [OF assms(1), of cl] assms(2) have b: "cl \<le> of_nat (2 * q + 1)" by simp
  from b have b': "cl \<le> of_nat (2 * q) + 1" by (simp only: of_nat_add of_nat_1)
  show ?thesis by (simp only: pair_data_of_def pair_index(1) a b' if_True if_False)
qed

lemma pair_bytes_both:
  "(ucast (drop_bit (8 * 0) (0xff7ff7 :: uint32_t)) :: uint8_t) = 0xf7"
  "(ucast (drop_bit (8 * 1) (0xff7ff7 :: uint32_t)) :: uint8_t) = 0x7f"
  "(ucast (drop_bit (8 * 2) (0xff7ff7 :: uint32_t)) :: uint8_t) = 0xff"
  by code_simp+

lemma pair_bytes_upper:
  "(ucast (drop_bit (8 * 0) (0xff7000 :: uint32_t)) :: uint8_t) = 0x00"
  "(ucast (drop_bit (8 * 1) (0xff7000 :: uint32_t)) :: uint8_t) = 0x70"
  "(ucast (drop_bit (8 * 2) (0xff7000 :: uint32_t)) :: uint8_t) = 0xff"
  by code_simp+

lemma pair_pos:
  "(3 * q) div 3 = q" "(3 * q) mod 3 = 0"
  "(3 * q + 1) div 3 = q" "(3 * q + 1) mod 3 = 1"
  "(3 * q + 2) div 3 = (q::nat)" "(3 * q + 2) mod 3 = 2"
  by presburger+

text \<open>The three bytes of pair \<open>q\<close> in a FAT12 table.\<close>

lemma fat12_pair_both:
  assumes "1 \<le> q" "2 * q < 4294967296" "unat cl \<le> 2 * q"
  shows "fat12_byte cl (3 * q) = 0xf7" "fat12_byte cl (3 * q + 1) = 0x7f"
        "fat12_byte cl (3 * q + 2) = 0xff"
proof -
  from assms(1) have n: "\<not> 3 * q < 3" "\<not> 3 * q + 1 < 3" "\<not> 3 * q + 2 < 3" by simp_all
  note pd = pair_data_both [OF assms(2,3)]
  show "fat12_byte cl (3 * q) = 0xf7"
    by (simp only: fat12_byte_def n if_False raw12_def pair_pos pd pair_bytes_both)
  show "fat12_byte cl (3 * q + 1) = 0x7f"
    by (simp only: fat12_byte_def n if_False raw12_def pair_pos pd pair_bytes_both)
  show "fat12_byte cl (3 * q + 2) = 0xff"
    by (simp only: fat12_byte_def n if_False raw12_def pair_pos pd pair_bytes_both)
qed

lemma fat12_pair_upper:
  assumes "1 \<le> q" "2 * q + 1 < 4294967296" "unat cl = 2 * q + 1"
  shows "fat12_byte cl (3 * q) = 0x00" "fat12_byte cl (3 * q + 1) = 0x70"
        "fat12_byte cl (3 * q + 2) = 0xff"
proof -
  from assms(1) have n: "\<not> 3 * q < 3" "\<not> 3 * q + 1 < 3" "\<not> 3 * q + 2 < 3" by simp_all
  note pd = pair_data_upper [OF assms(2,3)]
  show "fat12_byte cl (3 * q) = 0x00"
    by (simp only: fat12_byte_def n if_False raw12_def pair_pos pd pair_bytes_upper)
  show "fat12_byte cl (3 * q + 1) = 0x70"
    by (simp only: fat12_byte_def n if_False raw12_def pair_pos pd pair_bytes_upper)
  show "fat12_byte cl (3 * q + 2) = 0xff"
    by (simp only: fat12_byte_def n if_False raw12_def pair_pos pd pair_bytes_upper)
qed

lemma fat16_beyond:
  assumes "2 \<le> n" "n < 4294967296" "unat cl \<le> n"
  shows "fat16_byte cl (2 * n) = 0xf7" "fat16_byte cl (2 * n + 1) = 0xff"
proof -
  from assms(1) have n: "\<not> 2 * n < 4" "\<not> 2 * n + 1 < 4" by simp_all
  have d: "(2 * n) div 2 = n" "(2 * n + 1) div 2 = n" by simp_all
  have e: "even (2 * n)" "\<not> even (2 * n + 1)" by simp_all
  from cl_le_of_nat [OF assms(2), of cl] assms(3) have c: "cl \<le> of_nat n" by simp
  show "fat16_byte cl (2 * n) = 0xf7"
    by (simp only: fat16_byte_def n raw16_def d c e if_True if_False)
  show "fat16_byte cl (2 * n + 1) = 0xff"
    by (simp only: fat16_byte_def n raw16_def d c e if_True if_False)
qed

lemma fat32_beyond:
  assumes "3 \<le> n" "n < 4294967296" "unat cl \<le> n"
  shows "fat32_byte cl (4 * n) = 0xf7" "fat32_byte cl (4 * n + 1) = 0xff"
        "fat32_byte cl (4 * n + 2) = 0xff" "fat32_byte cl (4 * n + 3) = 0xff"
proof -
  from assms(1) have n: "\<not> 4 * n < 12" "\<not> 4 * n + 1 < 12" "\<not> 4 * n + 2 < 12" "\<not> 4 * n + 3 < 12"
    by simp_all
  have d: "(4 * n) div 4 = n" "(4 * n + 1) div 4 = n" "(4 * n + 2) div 4 = n" "(4 * n + 3) div 4 = n"
    by simp_all
  have m: "(4 * n) mod 4 = 0" "(4 * n + 1) mod 4 \<noteq> 0" "(4 * n + 2) mod 4 \<noteq> 0"
          "(4 * n + 3) mod 4 \<noteq> 0"
    by presburger+
  from cl_le_of_nat [OF assms(2), of cl] assms(3) have c: "cl \<le> of_nat n" by simp
  show "fat32_byte cl (4 * n) = 0xf7"
    by (simp only: fat32_byte_def n raw32_def d c m if_True if_False simp_thms)
  show "fat32_byte cl (4 * n + 1) = 0xff"
    by (simp only: fat32_byte_def n raw32_def d c m if_True if_False simp_thms)
  show "fat32_byte cl (4 * n + 2) = 0xff"
    by (simp only: fat32_byte_def n raw32_def d c m if_True if_False simp_thms)
  show "fat32_byte cl (4 * n + 3) = 0xff"
    by (simp only: fat32_byte_def n raw32_def d c m if_True if_False simp_thms)
qed

lemma init_fat_copy:
  assumes ok: "init_fat stk dev fl = (Inr (), dev')"
    and l: "4 \<le> log2_block_size dev"
    and fb: "unat (fat_blocks fl) < 2 ^ 63"
    and k: "k < 2"
  shows "fat_copy dev' fl k =
           map (fat_byte (fs_type fl) (clusters fl))
               [0 ..< unat (fat_blocks fl) * 2 ^ log2_block_size dev]"
  using init_fat_writes [OF ok l fb] fb k by (rule fat_copy_bytes)






lemma fat12_beyond_even:
  assumes "even n" "2 \<le> n" "n < 4294967296" "unat cl \<le> n" "n + n div 2 + 2 \<le> N"
  shows "fat_entry UFAT_TYPE_FAT12 (map (fat12_byte cl) [0 ..< N]) n = 0xff7"
proof -
  from assms(1) obtain q where n: "n = 2 * q" by (auto elim: evenE)
  with assms have q: "1 \<le> q" "2 * q < 4294967296" "unat cl \<le> 2 * q" by simp_all
  from n have off: "n + n div 2 = 3 * q" by simp
  from assms(5) off have "3 * q + 1 < N" by simp
  from le16_map [OF this, of "fat12_byte cl"] fat12_pair_both(1,2) [OF q]
  have "le16 (map (fat12_byte cl) [0 ..< N]) (3 * q) = 0x7ff7" by simp
  with assms(1) off show ?thesis by (simp add: fat_entry_def)
qed

lemma fat12_beyond_odd:
  assumes "odd n" "2 \<le> n" "n < 4294967296" "unat cl \<le> n" "n + n div 2 + 2 \<le> N"
  shows "fat_entry UFAT_TYPE_FAT12 (map (fat12_byte cl) [0 ..< N]) n = 0xff7"
proof -
  from assms(1) obtain q where n: "n = 2 * q + 1" by (auto elim: oddE)
  with assms have q: "1 \<le> q" "2 * q + 1 < 4294967296" by simp_all
  then have q2: "2 * q < 4294967296" by simp
  from n have off: "n + n div 2 = 3 * q + 1" by simp
  from assms(5) off have "3 * q + 1 + 1 < N" by simp
  note le = le16_map [OF this, of "fat12_byte cl"]
  have s: "3 * q + 1 + 1 = 3 * q + 2" by simp
  have "le16 (map (fat12_byte cl) [0 ..< N]) (3 * q + 1) div 16 = 0xff7"
  proof (cases "unat cl \<le> 2 * q")
    case True
    from le fat12_pair_both(2,3) [OF q(1) q2 True] show ?thesis by (simp add: s)
  next
    case False
    with assms(4) n have "unat cl = 2 * q + 1" by simp
    from le fat12_pair_upper(2,3) [OF q this] show ?thesis by (simp add: s)
  qed
  with assms(1) off show ?thesis by (simp add: fat_entry_def)
qed

lemma beyond_entries:
  assumes r: "reserved_entries ty \<le> n" and c: "unat cl \<le> n" and n: "n < 2 ^ 32"
    and t: "entry_in_table ty N n"
  shows "fat_entry ty (map (fat_byte ty cl) [0 ..< N]) n = bad_marker ty"
proof (cases ty)
  case UFAT_TYPE_FAT12
  with r t n have a: "2 \<le> n" "n + n div 2 + 2 \<le> N" "n < 4294967296"
    by (simp_all add: reserved_entries_def entry_in_table_def)
  have "fat_entry UFAT_TYPE_FAT12 (map (fat12_byte cl) [0 ..< N]) n = 0xff7"
  proof (cases "even n")
    case True
    then show ?thesis using a(1) a(3) c a(2) by (rule fat12_beyond_even)
  next
    case False
    then show ?thesis using a(1) a(3) c a(2) by (rule fat12_beyond_odd)
  qed
  with UFAT_TYPE_FAT12 show ?thesis by (simp add: fat_byte_def bad_marker_def)
next
  case UFAT_TYPE_FAT16
  with r t n have a: "2 \<le> n" "2 * n + 1 < N" "n < 4294967296"
    by (simp_all add: reserved_entries_def entry_in_table_def)
  from le16_map [OF a(2), of "fat16_byte cl"] fat16_beyond [OF a(1) a(3) c]
  have "le16 (map (fat16_byte cl) [0 ..< N]) (2 * n) = 0xfff7" by simp
  with UFAT_TYPE_FAT16 show ?thesis by (simp add: fat_entry_def fat_byte_def bad_marker_def)
next
  case UFAT_TYPE_FAT32
  with r t n have a: "3 \<le> n" "4 * n + 3 < N" "n < 4294967296"
    by (simp_all add: reserved_entries_def entry_in_table_def)
  have s: "4 * n + 1 + 1 = 4 * n + 2" "4 * n + 2 + 1 = 4 * n + 3" by simp_all
  from le32_map [OF a(2), of "fat32_byte cl"] fat32_beyond [OF a(1) a(3) c]
  have "le32 (map (fat32_byte cl) [0 ..< N]) (4 * n) = 0xfffffff7" by simp
  with UFAT_TYPE_FAT32 show ?thesis by (simp add: fat_entry_def fat_byte_def bad_marker_def)
qed

lemma fat12_pair_bytes_both:
  assumes "even n" "2 \<le> n" "n < 2 ^ 32" "unat cl \<le> n" "n + n div 2 + 3 \<le> N"
  shows "take 3 (drop (n + n div 2) (map (fat12_byte cl) [0 ..< N])) = [0xf7, 0x7f, 0xff]"
proof -
  from assms(1) obtain q where n: "n = 2 * q" by (auto elim: evenE)
  with assms have q: "1 \<le> q" "2 * q < 4294967296" "unat cl \<le> 2 * q" by simp_all
  from n have off: "n + n div 2 = 3 * q" by simp
  from assms(5) off have "3 * q + 3 \<le> N" by simp
  from take3_map [OF this, of "fat12_byte cl"] fat12_pair_both [OF q] off
  show ?thesis by simp
qed

lemma fat12_pair_bytes_upper:
  assumes "odd n" "2 \<le> n" "n < 2 ^ 32" "unat cl = n" "n + n div 2 + 2 \<le> N"
  shows "take 3 (drop (n + n div 2 - 1) (map (fat12_byte cl) [0 ..< N])) = [0x00, 0x70, 0xff]"
    and "fat_entry UFAT_TYPE_FAT12 (map (fat12_byte cl) [0 ..< N]) (n - 1) = 0"
proof -
  from assms(1) obtain q where n: "n = 2 * q + 1" by (auto elim: oddE)
  with assms have q: "1 \<le> q" "2 * q + 1 < 4294967296" "unat cl = 2 * q + 1" by simp_all
  from n have off: "n + n div 2 - 1 = 3 * q" by simp
  from assms(5) n have N: "3 * q + 3 \<le> N" by simp
  from take3_map [OF N, of "fat12_byte cl"] fat12_pair_upper [OF q] off
  show "take 3 (drop (n + n div 2 - 1) (map (fat12_byte cl) [0 ..< N])) = [0x00, 0x70, 0xff]"
    by simp
  from N have "3 * q + 1 < N" by simp
  from le16_map [OF this, of "fat12_byte cl"] fat12_pair_upper(1,2) [OF q]
  have "le16 (map (fat12_byte cl) [0 ..< N]) (3 * q) = 0x7000" by simp
  moreover from n have "n - 1 = 2 * q" by simp
  ultimately show "fat_entry UFAT_TYPE_FAT12 (map (fat12_byte cl) [0 ..< N]) (n - 1) = 0"
    by (simp add: fat_entry_def)
qed

lemma init_fat_dev0:
  assumes "l \<le> 10"
  shows "init_fat stk (dev0 l) fl = (Inr (), snd (init_fat stk (dev0 l) fl))"
proof -
  have "io_ok (dev0 l) (init_fat stk (dev0 l) fl)"
    using init_fat_io by (rule asserts_io) (simp add: dev0_def assms)
  then have "fst (init_fat stk (dev0 l) fl) = Inr ()"
    by (simp add: io_ok_def never_fails_dev0)
  then show ?thesis by (simp add: prod_eq_iff)
qed

lemma layout_37_9: "c_fl (layout_body 37 9) =
      \<lparr>log2_sector_size = 9, log2_bpc = 1, reserved_blocks = 1,
          root_blocks = 32, fat_blocks = 1, logical_blocks = 37,
          clusters = 3, fs_type = UFAT_TYPE_FAT12\<rparr>"
  by code_simp


section \<open>The layout of a device with room for every region\<close>

lemma regions_est: "c_est_clusters (layout_regions l sz) =
    ucast (drop_bit (log2_bpc (c_fl (layout_regions l sz)))
             (s_nblk sz - reserved_blocks (c_fl (layout_regions l sz))) + 2)"
  by (simp only: layout_regions_def Let_def sel_convs)

lemma regions_root_min: "c_root_min (layout_regions l sz) =
    (if s_type sz \<noteq> UFAT_TYPE_FAT32 then bytes_to_blocks l 16384 else 0)"
  by (simp only: layout_regions_def Let_def sel_convs)

lemma regions_clusters: "clusters (c_fl (layout_regions l sz)) =
    ucast (drop_bit (log2_bpc (c_fl (layout_regions l sz)))
             (s_nblk sz - reserved_blocks (c_fl (layout_regions l sz))
                - c_root_min (layout_regions l sz)
                - fat_blocks (c_fl (layout_regions l sz)) * 2) + 2)"
  by (simp only: layout_regions_def Let_def sel_convs)

lemma regions_root: "root_blocks (c_fl (layout_regions l sz)) =
    (if s_type sz \<noteq> UFAT_TYPE_FAT32
     then s_nblk sz - reserved_blocks (c_fl (layout_regions l sz))
            - fat_blocks (c_fl (layout_regions l sz)) * 2
            - ucast (push_bit (log2_bpc (c_fl (layout_regions l sz)))
                       (clusters (c_fl (layout_regions l sz)) - 2))
     else c_root_min (layout_regions l sz))"
  by (simp only: layout_regions_def Let_def sel_convs)

lemma regions_logical: "logical_blocks (c_fl (layout_regions l sz)) =
    ucast (push_bit (log2_bpc (c_fl (layout_regions l sz)))
                       (clusters (c_fl (layout_regions l sz)) - 2))
      + fat_blocks (c_fl (layout_regions l sz)) * 2
      + reserved_blocks (c_fl (layout_regions l sz))
      + root_blocks (c_fl (layout_regions l sz))"
  by (simp only: layout_regions_def Let_def sel_convs)

lemma grow_bps_bound: "b \<le> 12 \<Longrightarrow> grow_bps l n b \<le> 12"
proof (induction l n b rule: grow_bps.induct)
  case (1 l n b)
  show ?case
  proof (cases "l + b < 12 \<and> drop_bit b n > UINT32_MAX")
    case True
    then have "b + 1 \<le> 12" by simp
    with "1.IH" True have "grow_bps l n (b + 1) \<le> 12" by simp
    with True show ?thesis by (subst grow_bps.simps) simp
  next
    case False
    with "1.prems" show ?thesis by (subst grow_bps.simps) auto
  qed
qed

lemma unat_drop_bit_64: "unat (drop_bit k (w :: ufat_block_t)) = unat w div 2 ^ k"
proof -
  have "unat (drop_bit k w) = drop_bit k (unat w)" by (rule unat_drop_bit_eq)
  also have "\<dots> = unat w div 2 ^ k" by (rule drop_bit_eq_div)
  finally show ?thesis .
qed

lemma unat_push_bit_64:
  "unat (push_bit k (w :: ufat_block_t)) = (unat w * 2 ^ k) mod 18446744073709551616"
proof -
  have "unat (push_bit k w) = take_bit LENGTH(64) (push_bit k (unat w))"
    by (simp only: unsigned_push_bit_eq)
  also have "\<dots> = (unat w * 2 ^ k) mod 2 ^ LENGTH(64)"
    by (simp only: take_bit_eq_mod push_bit_eq_mult)
  finally show ?thesis by simp
qed

lemma unat_push_bit_32:
  "unat (push_bit k (w :: uint32_t)) = (unat w * 2 ^ k) mod 4294967296"
proof -
  have "unat (push_bit k w) = take_bit LENGTH(32) (push_bit k (unat w))"
    by (simp only: unsigned_push_bit_eq)
  also have "\<dots> = (unat w * 2 ^ k) mod 2 ^ LENGTH(32)"
    by (simp only: take_bit_eq_mod push_bit_eq_mult)
  finally show ?thesis by simp
qed

lemma unat_ucast_64_32: "unat (ucast (w :: ufat_block_t) :: uint32_t) = unat w mod 4294967296"
proof -
  have "unat (ucast w :: uint32_t) = take_bit LENGTH(32) (unat w)"
    by (simp only: unsigned_ucast_eq)
  also have "\<dots> = unat w mod 2 ^ LENGTH(32)" by (simp only: take_bit_eq_mod)
  finally show ?thesis by simp
qed

lemma unat_32_less: "unat (w :: uint32_t) < 4294967296"
  using unsigned_less [of w, where 'a = nat] by simp

lemma unat_64_less: "unat (w :: ufat_block_t) < 18446744073709551616"
  using unsigned_less [of w, where 'a = nat] by simp

lemma unat_ucast_32_64: "unat (ucast (w :: uint32_t) :: ufat_block_t) = unat w"
proof -
  have "unat (ucast w :: ufat_block_t) = take_bit LENGTH(64) (unat w)"
    by (simp only: unsigned_ucast_eq)
  also have "\<dots> = unat w mod 2 ^ LENGTH(64)" by (simp only: take_bit_eq_mod)
  also have "\<dots> = unat w" using unat_32_less [of w] by simp
  finally show ?thesis .
qed

lemma gt_uint32_max: "(w :: ufat_block_t) > UINT32_MAX \<longleftrightarrow> unat w > 4294967295"
  by (simp add: UINT32_MAX_def word_less_nat_alt)

lemma pow_le_4096: "k \<le> 12 \<Longrightarrow> (2::nat) ^ k \<le> 4096"
proof -
  assume "k \<le> 12"
  then have "(2::nat) ^ k \<le> 2 ^ 12" by (rule power_increasing) simp
  then show ?thesis by simp
qed

lemma sizing_bps_le:
  assumes "l \<le> 12"
  shows "s_log2_bps (layout_sizing n l) \<le> 12"
proof -
  have "(if l < 9 then 9 - l else 0) \<le> (12::nat)" by (cases "l < 9") arith+
  then show ?thesis unfolding sizing_bps by (rule grow_bps_bound)
qed

lemma sizing_nblk_bounds:
  assumes "l \<le> 12"
  shows "unat (s_nblk (layout_sizing n l)) div 2 ^ s_log2_bps (layout_sizing n l) \<le> 4294967295"
    and "unat (s_nblk (layout_sizing n l)) \<le> unat n"
proof -
  let ?sz = "layout_sizing n l"
  let ?b = "s_log2_bps ?sz"
  from sizing_bps_le [OF assms] have "(2::nat) ^ ?b \<le> 4096" by (rule pow_le_4096)
  then have small: "4294967295 * (2::nat) ^ ?b < 18446744073709551616" by simp
  have pos: "(0::nat) < 2 ^ ?b" by simp
  show "unat (s_nblk ?sz) div 2 ^ ?b \<le> 4294967295"
  proof (cases "drop_bit ?b n > UINT32_MAX")
    case True
    then have "s_nblk ?sz = push_bit ?b UINT32_MAX" by (subst sizing_nblk) simp
    then have "unat (s_nblk ?sz) = (4294967295 * 2 ^ ?b) mod 18446744073709551616"
      by (simp add: unat_push_bit_64 UINT32_MAX_def)
    with small have "unat (s_nblk ?sz) = 4294967295 * 2 ^ ?b" by simp
    then show ?thesis by simp
  next
    case False
    then have "s_nblk ?sz = n" by (subst sizing_nblk) simp
    moreover from False have "unat n div 2 ^ ?b \<le> 4294967295"
      by (simp add: gt_uint32_max unat_drop_bit_64)
    ultimately show ?thesis by simp
  qed
  show "unat (s_nblk ?sz) \<le> unat n"
  proof (cases "drop_bit ?b n > UINT32_MAX")
    case True
    then have "s_nblk ?sz = push_bit ?b UINT32_MAX" by (subst sizing_nblk) simp
    then have "unat (s_nblk ?sz) = (4294967295 * 2 ^ ?b) mod 18446744073709551616"
      by (simp add: unat_push_bit_64 UINT32_MAX_def)
    with small have e: "unat (s_nblk ?sz) = 4294967295 * 2 ^ ?b" by simp
    from True have "4294967296 \<le> unat n div 2 ^ ?b"
      by (simp add: gt_uint32_max unat_drop_bit_64)
    then have "4294967296 * 2 ^ ?b \<le> unat n div 2 ^ ?b * 2 ^ ?b" by (rule mult_le_mono1)
    also have "\<dots> \<le> unat n" by (rule div_times_less_eq_dividend)
    finally have "4294967296 * 2 ^ ?b \<le> unat n" .
    moreover have "4294967295 * (2::nat) ^ ?b \<le> 4294967296 * 2 ^ ?b" by simp
    ultimately show ?thesis using e by simp
  next
    case False
    then have "s_nblk ?sz = n" by (subst sizing_nblk) simp
    then show ?thesis by simp
  qed
qed

lemma sizing_nblk_small:
  assumes "unat n < 4294967296"
  shows "s_nblk (layout_sizing n l) = n"
proof -
  let ?b = "s_log2_bps (layout_sizing n l)"
  have "unat n div 2 ^ ?b \<le> unat n" by (rule div_le_dividend)
  from this assms have "unat n div 2 ^ ?b < 4294967296" by (rule le_less_trans)
  then have "\<not> 4294967295 < unat n div 2 ^ ?b" by arith
  then have "\<not> drop_bit ?b n > UINT32_MAX"
    by (simp add: gt_uint32_max unat_drop_bit_64)
  then show ?thesis by (subst sizing_nblk) simp
qed

lemma sizing_spc_ge: "1 \<le> s_log2_spc (layout_sizing n l)"
proof -
  have "1 \<le> s_spc0 (layout_sizing n l)" by (simp add: sizing_spc0)
  also have "\<dots> \<le> grow_spc (l + s_log2_bps (layout_sizing n l)) (s_nsect (layout_sizing n l))
     (s_threshold (layout_sizing n l)) (s_spc0 (layout_sizing n l))"
    by (rule grow_spc_ge)
  also have "\<dots> = s_log2_spc (layout_sizing n l)" by (rule sizing_spc [symmetric])
  finally show ?thesis .
qed

text \<open>the cluster counts stay within 31 bits\<close>
lemma clusters_small:
  assumes l: "l \<le> 12" and x: "x \<le> unat (s_nblk (layout_sizing n l))"
  shows "x div 2 ^ (s_log2_bps (layout_sizing n l) + s_log2_spc (layout_sizing n l)) + 2
           < 4294967296"
proof -
  let ?sz = "layout_sizing n l"
  let ?b = "s_log2_bps ?sz" and ?s = "s_log2_spc ?sz"
  have "x div 2 ^ (?b + ?s) = (x div 2 ^ ?b) div 2 ^ ?s"
    by (simp add: power_add div_mult2_eq)
  also have "\<dots> \<le> (x div 2 ^ ?b) div 2 ^ 1"
    using sizing_spc_ge [of n l] by (intro div_le_mono2 power_increasing) simp_all
  also have "\<dots> \<le> (unat (s_nblk ?sz) div 2 ^ ?b) div 2 ^ 1"
    using x by (intro div_le_mono) simp
  also have "\<dots> \<le> 4294967295 div 2 ^ 1"
    using sizing_nblk_bounds(1) [OF l, of n] by (rule div_le_mono)
  finally show ?thesis by simp
qed

lemma unat_sub_64:
  fixes a b :: ufat_block_t
  assumes "unat b \<le> unat a"
  shows "unat (a - b) = unat a - unat b"
proof -
  from assms have "b \<le> a" by (simp only: word_le_nat_alt)
  then show ?thesis by (rule unat_sub)
qed

lemma unat_twice_64:
  fixes a :: ufat_block_t
  assumes "2 * unat a < 18446744073709551616"
  shows "unat (a * 2) = 2 * unat a"
proof -
  have "unat (a * 2) = (unat a * unat (2 :: ufat_block_t)) mod 2 ^ LENGTH(64)"
    by (rule unat_word_ariths)
  also have "\<dots> = (2 * unat a) mod 18446744073709551616" by (simp add: mult.commute)
  also from assms have "\<dots> = 2 * unat a" by simp
  finally show ?thesis .
qed

lemma unat_add_64:
  fixes a b :: ufat_block_t
  assumes "unat a + unat b < 18446744073709551616"
  shows "unat (a + b) = unat a + unat b"
proof -
  have "unat (a + b) = (unat a + unat b) mod 2 ^ LENGTH(64)" by (rule unat_word_ariths)
  also from assms have "\<dots> = unat a + unat b" by simp
  finally show ?thesis .
qed

lemma unat_sub2_32:
  fixes a :: uint32_t
  assumes "2 \<le> unat a"
  shows "unat (a - 2) = unat a - 2"
proof -
  from assms have "(2 :: uint32_t) \<le> a" by (simp add: word_le_nat_alt)
  then have "unat (a - 2) = unat a - unat (2 :: uint32_t)" by (rule unat_sub)
  then show ?thesis by simp
qed

lemma count_val:
  fixes X :: ufat_block_t
  assumes "unat X div 2 ^ k + 2 < 4294967296"
  shows "unat (ucast (drop_bit k X + 2) :: uint32_t) = unat X div 2 ^ k + 2"
proof -
  have "unat (drop_bit k X) + unat (2 :: ufat_block_t) < 18446744073709551616"
    using assms by (simp add: unat_drop_bit_64)
  then have "unat (drop_bit k X + 2) = unat (drop_bit k X) + unat (2 :: ufat_block_t)"
    by (rule unat_add_64)
  then have e: "unat (drop_bit k X + 2) = unat X div 2 ^ k + 2"
    by (simp add: unat_drop_bit_64)
  have "unat (ucast (drop_bit k X + 2) :: uint32_t) = unat (drop_bit k X + 2) mod 4294967296"
    by (rule unat_ucast_64_32)
  also have "\<dots> = unat X div 2 ^ k + 2" using assms by (simp only: e mod_less)
  finally show ?thesis .
qed

text \<open>
  When the reserved blocks, the smallest root directory and the two tables fit the
  device, the final cluster count is the estimate or less.
\<close>
lemma clusters_le_estimate:
  assumes l: "l \<le> 12"
    and fit: "unat (reserved_blocks (c_fl (layout_body n l))) + unat (c_root_min (layout_body n l))
               + 2 * unat (fat_blocks (c_fl (layout_body n l)))
               \<le> unat (s_nblk (layout_sizing n l))"
  shows "clusters (c_fl (layout_body n l)) \<le> c_est_clusters (layout_body n l)"
proof -
  let ?sz = "layout_sizing n l"
  let ?lb = "layout_regions l ?sz"
  let ?fl = "c_fl ?lb"
  let ?N = "s_nblk ?sz" and ?R = "reserved_blocks ?fl" and ?M = "c_root_min ?lb"
  let ?F = "fat_blocks ?fl" and ?k = "log2_bpc ?fl"
  note fit' = fit [unfolded layout_body_def]
  have k: "?k = s_log2_bps ?sz + s_log2_spc ?sz" by (rule regions_bpc)
  have N: "unat ?N < 18446744073709551616" by (rule unat_64_less)
  from fit' have RN: "unat ?R \<le> unat ?N" by arith
  then have s1: "unat (?N - ?R) = unat ?N - unat ?R" by (rule unat_sub_64)
  from fit' have "unat ?M \<le> unat (?N - ?R)" unfolding s1 by arith
  then have s2: "unat (?N - ?R - ?M) = unat ?N - unat ?R - unat ?M"
    unfolding s1 [symmetric] by (rule unat_sub_64)
  from fit' N have "2 * unat ?F < 18446744073709551616" by arith
  then have f2: "unat (?F * 2) = 2 * unat ?F" by (rule unat_twice_64)
  from fit' have "unat (?F * 2) \<le> unat (?N - ?R - ?M)" unfolding s2 f2 by arith
  then have s3: "unat (?N - ?R - ?M - ?F * 2) = unat ?N - unat ?R - unat ?M - 2 * unat ?F"
    unfolding s2 [symmetric] f2 [symmetric] by (rule unat_sub_64)
  have b1: "unat (?N - ?R) div 2 ^ ?k + 2 < 4294967296"
    unfolding k s1 by (rule clusters_small [OF l]) arith
  have b2: "unat (?N - ?R - ?M - ?F * 2) div 2 ^ ?k + 2 < 4294967296"
    unfolding k s3 by (rule clusters_small [OF l]) arith
  have est: "unat (c_est_clusters ?lb) = unat (?N - ?R) div 2 ^ ?k + 2"
    by (subst regions_est) (rule count_val [OF b1])
  have cl: "unat (clusters ?fl) = unat (?N - ?R - ?M - ?F * 2) div 2 ^ ?k + 2"
    by (subst regions_clusters) (rule count_val [OF b2])
  have "unat ?N - unat ?R - unat ?M - 2 * unat ?F \<le> unat ?N - unat ?R" by arith
  then have "(unat ?N - unat ?R - unat ?M - 2 * unat ?F) div 2 ^ ?k
               \<le> (unat ?N - unat ?R) div 2 ^ ?k" by (rule div_le_mono)
  then have "unat (clusters ?fl) \<le> unat (c_est_clusters ?lb)"
    unfolding est cl s1 s3 by simp
  then show ?thesis unfolding layout_body_def by (simp only: word_le_nat_alt)
qed

text \<open>
  When moreover the device has fewer than \<open>2 ^ 32\<close> blocks, the four regions add up to
  the logical block count, which is no more than the block count of the device.
\<close>
lemma regions_sum_fits:
  assumes l: "l \<le> 12" and small: "unat n < 4294967296"
    and fit: "unat (reserved_blocks (c_fl (layout_body n l))) + unat (c_root_min (layout_body n l))
               + 2 * unat (fat_blocks (c_fl (layout_body n l))) \<le> unat n"
  shows "unat (logical_blocks (c_fl (layout_body n l)))
           = unat (reserved_blocks (c_fl (layout_body n l)))
             + 2 * unat (fat_blocks (c_fl (layout_body n l)))
             + unat (root_blocks (c_fl (layout_body n l)))
             + (unat (clusters (c_fl (layout_body n l))) - 2)
                 * 2 ^ log2_bpc (c_fl (layout_body n l))"
    and "logical_blocks (c_fl (layout_body n l)) \<le> n"
proof -
  let ?sz = "layout_sizing n l"
  let ?lb = "layout_regions l ?sz"
  let ?fl = "c_fl ?lb"
  let ?N = "s_nblk ?sz" and ?R = "reserved_blocks ?fl" and ?M = "c_root_min ?lb"
  let ?F = "fat_blocks ?fl" and ?k = "log2_bpc ?fl"
  let ?D = "ucast (push_bit ?k (clusters ?fl - 2)) :: ufat_block_t"
  have Nn: "?N = n" using small by (rule sizing_nblk_small)
  have fit': "unat ?R + unat ?M + 2 * unat ?F \<le> unat ?N"
    using fit [unfolded layout_body_def] by (simp only: Nn)
  have k: "?k = s_log2_bps ?sz + s_log2_spc ?sz" by (rule regions_bpc)
  have N: "unat ?N < 4294967296" using small by (simp only: Nn)
  from fit' have RN: "unat ?R \<le> unat ?N" by arith
  then have s1: "unat (?N - ?R) = unat ?N - unat ?R" by (rule unat_sub_64)
  from fit' have "unat ?M \<le> unat (?N - ?R)" unfolding s1 by arith
  then have s2: "unat (?N - ?R - ?M) = unat ?N - unat ?R - unat ?M"
    unfolding s1 [symmetric] by (rule unat_sub_64)
  from fit' N have "2 * unat ?F < 18446744073709551616" by arith
  then have f2: "unat (?F * 2) = 2 * unat ?F" by (rule unat_twice_64)
  from fit' have "unat (?F * 2) \<le> unat (?N - ?R - ?M)" unfolding s2 f2 by arith
  then have s3: "unat (?N - ?R - ?M - ?F * 2) = unat ?N - unat ?R - unat ?M - 2 * unat ?F"
    unfolding s2 [symmetric] f2 [symmetric] by (rule unat_sub_64)
  define X where "X = unat ?N - unat ?R - unat ?M - 2 * unat ?F"
  have b2: "unat (?N - ?R - ?M - ?F * 2) div 2 ^ ?k + 2 < 4294967296"
    unfolding k s3 by (rule clusters_small [OF l]) arith
  have cl: "unat (clusters ?fl) = X div 2 ^ ?k + 2"
    unfolding X_def s3 [symmetric] by (subst regions_clusters) (rule count_val [OF b2])
  then have "2 \<le> unat (clusters ?fl)" by simp
  then have "unat (clusters ?fl - 2) = unat (clusters ?fl) - 2" by (rule unat_sub2_32)
  with cl have c2: "unat (clusters ?fl - 2) = X div 2 ^ ?k" by simp
  have XN: "X \<le> unat ?N" unfolding X_def by arith
  have dX: "X div 2 ^ ?k * 2 ^ ?k \<le> X" by (rule div_times_less_eq_dividend)
  with XN N have dsmall: "X div 2 ^ ?k * 2 ^ ?k < 4294967296" by arith
  have "unat (push_bit ?k (clusters ?fl - 2)) = (X div 2 ^ ?k * 2 ^ ?k) mod 4294967296"
    by (simp only: unat_push_bit_32 c2)
  with dsmall have "unat (push_bit ?k (clusters ?fl - 2)) = X div 2 ^ ?k * 2 ^ ?k"
    by (simp only: mod_less)
  then have D: "unat ?D = X div 2 ^ ?k * 2 ^ ?k" by (simp only: unat_ucast_32_64)
  have D': "unat ?D = (unat (clusters ?fl) - 2) * 2 ^ ?k" unfolding D cl by simp
  have DX: "unat ?D \<le> X" unfolding D by (rule dX)
  have root: "unat (root_blocks ?fl) + unat ?D + 2 * unat ?F + unat ?R \<le> unat ?N"
  proof (cases "s_type ?sz = UFAT_TYPE_FAT32")
    case True
    then have "root_blocks ?fl = ?M" by (subst regions_root) simp
    with DX fit' show ?thesis unfolding X_def by arith
  next
    case False
    then have r: "root_blocks ?fl = ?N - ?R - ?F * 2 - ?D" by (subst regions_root) simp
    from fit' have "unat (?F * 2) \<le> unat (?N - ?R)" unfolding s1 f2 by arith
    then have t2: "unat (?N - ?R - ?F * 2) = unat ?N - unat ?R - 2 * unat ?F"
      unfolding s1 [symmetric] f2 [symmetric] by (rule unat_sub_64)
    from DX have "unat ?D \<le> unat (?N - ?R - ?F * 2)" unfolding t2 X_def by arith
    then have "unat (?N - ?R - ?F * 2 - ?D) = unat ?N - unat ?R - 2 * unat ?F - unat ?D"
      unfolding t2 [symmetric] by (rule unat_sub_64)
    then have "unat (root_blocks ?fl) = unat ?N - unat ?R - 2 * unat ?F - unat ?D"
      by (simp only: r)
    with DX fit' show ?thesis unfolding X_def by arith
  qed
  from root N have a1: "unat ?D + unat (?F * 2) < 18446744073709551616" unfolding f2 by arith
  then have u1: "unat (?D + ?F * 2) = unat ?D + 2 * unat ?F"
    unfolding f2 [symmetric] by (rule unat_add_64)
  from root N have "unat (?D + ?F * 2) + unat ?R < 18446744073709551616" unfolding u1 by arith
  then have u2: "unat (?D + ?F * 2 + ?R) = unat ?D + 2 * unat ?F + unat ?R"
    unfolding u1 [symmetric] by (rule unat_add_64)
  from root N have "unat (?D + ?F * 2 + ?R) + unat (root_blocks ?fl) < 18446744073709551616"
    unfolding u2 by arith
  then have u3: "unat (?D + ?F * 2 + ?R + root_blocks ?fl)
                   = unat ?D + 2 * unat ?F + unat ?R + unat (root_blocks ?fl)"
    unfolding u2 [symmetric] by (rule unat_add_64)
  have lg: "unat (logical_blocks ?fl) = unat ?D + 2 * unat ?F + unat ?R + unat (root_blocks ?fl)"
    by (subst regions_logical) (rule u3)
  show "unat (logical_blocks (c_fl (layout_body n l)))
           = unat (reserved_blocks (c_fl (layout_body n l)))
             + 2 * unat (fat_blocks (c_fl (layout_body n l)))
             + unat (root_blocks (c_fl (layout_body n l)))
             + (unat (clusters (c_fl (layout_body n l))) - 2)
                 * 2 ^ log2_bpc (c_fl (layout_body n l))"
    unfolding layout_body_def lg D' by arith
  from root have "unat (logical_blocks ?fl) \<le> unat ?N" unfolding lg by arith
  then have "logical_blocks ?fl \<le> ?N" by (simp only: word_le_nat_alt)
  then show "logical_blocks (c_fl (layout_body n l)) \<le> n"
    unfolding layout_body_def by (simp only: Nn)
qed


section \<open>The entries beyond the cluster count\<close>

text \<open>
  On a device with blocks of at least 16 bytes, in both copies of the table, every entry
  at or beyond the final cluster count, the reserved entries of the first block apart, is
  the bad-cluster marker of the type
  (\<open>0xff7\<close>, \<open>0xfff7\<close>, \<open>0xfffffff7\<close>).  In a FAT12 table a pair with both entries
  beyond the count has the bytes \<open>f7 7f ff\<close>, and the pair with only its upper entry
  beyond the count, when the count is odd, has the bytes \<open>00 70 ff\<close>: its lower entry
  is free.
\<close>

lemma fat_entries_beyond_clusters:
  assumes "init_fat stk dev fl = (Inr (), dev')"
    and "4 \<le> log2_block_size dev"
    and "unat (fat_blocks fl) < 2 ^ 63"
    and "k < 2"
    and "reserved_entries (fs_type fl) \<le> n"
    and "unat (clusters fl) \<le> n"
    and "n < 2 ^ 32"
    and "entry_in_table (fs_type fl) (unat (fat_blocks fl) * 2 ^ log2_block_size dev) n"
  shows "fat_entry (fs_type fl) (fat_copy dev' fl k) n = bad_marker (fs_type fl) \<and>
         (fs_type fl = UFAT_TYPE_FAT12 \<and> even n \<and>
          n + n div 2 + 3 \<le> unat (fat_blocks fl) * 2 ^ log2_block_size dev \<longrightarrow>
            take 3 (drop (n + n div 2) (fat_copy dev' fl k)) = [0xf7, 0x7f, 0xff]) \<and>
         (fs_type fl = UFAT_TYPE_FAT12 \<and> odd n \<and> unat (clusters fl) = n \<longrightarrow>
            take 3 (drop (n + n div 2 - 1) (fat_copy dev' fl k)) = [0x00, 0x70, 0xff] \<and>
            fat_entry UFAT_TYPE_FAT12 (fat_copy dev' fl k) (n - 1) = 0)"
proof -
  let ?N = "unat (fat_blocks fl) * 2 ^ log2_block_size dev"
  note copy = init_fat_copy [OF assms(1-4)]
  have 1: "fat_entry (fs_type fl) (fat_copy dev' fl k) n = bad_marker (fs_type fl)"
    unfolding copy using assms(5-8) by (rule beyond_entries)
  have 2: "take 3 (drop (n + n div 2) (fat_copy dev' fl k)) = [0xf7, 0x7f, 0xff]"
    if "fs_type fl = UFAT_TYPE_FAT12" "even n" "n + n div 2 + 3 \<le> ?N"
  proof -
    from that(1) assms(5) have "2 \<le> n" by (simp add: reserved_entries_def)
    with that(2) have "take 3 (drop (n + n div 2) (map (fat12_byte (clusters fl)) [0 ..< ?N]))
                         = [0xf7, 0x7f, 0xff]"
      using assms(7) assms(6) that(3) by (rule fat12_pair_bytes_both)
    with that(1) show ?thesis by (simp add: copy fat_byte_def)
  qed
  have 3: "take 3 (drop (n + n div 2 - 1) (fat_copy dev' fl k)) = [0x00, 0x70, 0xff] \<and>
           fat_entry UFAT_TYPE_FAT12 (fat_copy dev' fl k) (n - 1) = 0"
    if "fs_type fl = UFAT_TYPE_FAT12" "odd n" "unat (clusters fl) = n"
  proof -
    from that(1) assms(5) have n2: "2 \<le> n" by (simp add: reserved_entries_def)
    from that(1) assms(8) have t: "n + n div 2 + 2 \<le> ?N" by (simp add: entry_in_table_def)
    from fat12_pair_bytes_upper [OF that(2) n2 assms(7) that(3) t] that(1)
    show ?thesis by (simp add: copy fat_byte_def)
  qed
  have e2: "fs_type fl = UFAT_TYPE_FAT12 \<and> even n \<and> n + n div 2 + 3 \<le> ?N \<longrightarrow>
            take 3 (drop (n + n div 2) (fat_copy dev' fl k)) = [0xf7, 0x7f, 0xff]"
  proof
    assume "fs_type fl = UFAT_TYPE_FAT12 \<and> even n \<and> n + n div 2 + 3 \<le> ?N"
    then have "fs_type fl = UFAT_TYPE_FAT12" "even n" "n + n div 2 + 3 \<le> ?N" by simp_all
    then show "take 3 (drop (n + n div 2) (fat_copy dev' fl k)) = [0xf7, 0x7f, 0xff]"
      by (rule 2)
  qed
  have e3: "fs_type fl = UFAT_TYPE_FAT12 \<and> odd n \<and> unat (clusters fl) = n \<longrightarrow>
            take 3 (drop (n + n div 2 - 1) (fat_copy dev' fl k)) = [0x00, 0x70, 0xff] \<and>
            fat_entry UFAT_TYPE_FAT12 (fat_copy dev' fl k) (n - 1) = 0"
  proof
    assume "fs_type fl = UFAT_TYPE_FAT12 \<and> odd n \<and> unat (clusters fl) = n"
    then have "fs_type fl = UFAT_TYPE_FAT12" "odd n" "unat (clusters fl) = n" by simp_all
    then show "take 3 (drop (n + n div 2 - 1) (fat_copy dev' fl k)) = [0x00, 0x70, 0xff] \<and>
            fat_entry UFAT_TYPE_FAT12 (fat_copy dev' fl k) (n - 1) = 0"
      by (rule 3)
  qed
  from 1 e2 e3 show ?thesis by (intro conjI)
qed

lemma fat_entries_beyond_clusters_37_9:
  "init_fat stk0 (dev0 9) (c_fl (layout_body 37 9))
     = (Inr (), snd (init_fat stk0 (dev0 9) (c_fl (layout_body 37 9)))) \<and>
   4 \<le> log2_block_size (dev0 9) \<and>
   unat (fat_blocks (c_fl (layout_body 37 9))) < 2 ^ 63 \<and> (0::nat) < 2 \<and>
   fs_type (c_fl (layout_body 37 9)) = UFAT_TYPE_FAT12 \<and>
   reserved_entries (fs_type (c_fl (layout_body 37 9))) \<le> 3 \<and>
   unat (clusters (c_fl (layout_body 37 9))) = 3 \<and> (3::nat) < 2 ^ 32 \<and> odd (3::nat) \<and>
   entry_in_table (fs_type (c_fl (layout_body 37 9)))
     (unat (fat_blocks (c_fl (layout_body 37 9))) * 2 ^ log2_block_size (dev0 9)) 3 \<and>
   fat_entry UFAT_TYPE_FAT12
     (fat_copy (snd (init_fat stk0 (dev0 9) (c_fl (layout_body 37 9)))) (c_fl (layout_body 37 9)) 0) 3
     = 0xff7 \<and>
   take 3 (drop 3
     (fat_copy (snd (init_fat stk0 (dev0 9) (c_fl (layout_body 37 9)))) (c_fl (layout_body 37 9)) 0))
     = [0x00, 0x70, 0xff] \<and>
   fat_entry UFAT_TYPE_FAT12
     (fat_copy (snd (init_fat stk0 (dev0 9) (c_fl (layout_body 37 9)))) (c_fl (layout_body 37 9)) 0) 2
     = 0 \<and>
   even (4::nat) \<and>
   take 3 (drop 6
     (fat_copy (snd (init_fat stk0 (dev0 9) (c_fl (layout_body 37 9)))) (c_fl (layout_body 37 9)) 0))
     = [0xf7, 0x7f, 0xff]"
proof -
  let ?fl = "c_fl (layout_body 37 9)"
  let ?copy = "fat_copy (snd (init_fat stk0 (dev0 9) ?fl)) ?fl 0"
  have ok: "init_fat stk0 (dev0 9) ?fl = (Inr (), snd (init_fat stk0 (dev0 9) ?fl))"
    by (rule init_fat_dev0) simp
  have l: "4 \<le> log2_block_size (dev0 9)" by (simp add: dev0_def)
  have fb: "unat (fat_blocks ?fl) < 2 ^ 63" by (simp add: layout_37_9)
  have k: "(0::nat) < 2" by simp
  have ty: "fs_type ?fl = UFAT_TYPE_FAT12" by (simp add: layout_37_9)
  have r3: "reserved_entries (fs_type ?fl) \<le> 3" and r4: "reserved_entries (fs_type ?fl) \<le> 4"
    by (simp_all add: ty reserved_entries_def)
  have c3: "unat (clusters ?fl) \<le> 3" and c4: "unat (clusters ?fl) \<le> 4"
    and ce: "unat (clusters ?fl) = 3"
    by (simp_all add: layout_37_9)
  have n3: "(3::nat) < 2 ^ 32" and n4: "(4::nat) < 2 ^ 32" by simp_all
  have N: "unat (fat_blocks ?fl) * 2 ^ log2_block_size (dev0 9) = 512"
    by (simp add: layout_37_9 dev0_def)
  have t3: "entry_in_table (fs_type ?fl) (unat (fat_blocks ?fl) * 2 ^ log2_block_size (dev0 9)) 3"
    and t4: "entry_in_table (fs_type ?fl) (unat (fat_blocks ?fl) * 2 ^ log2_block_size (dev0 9)) 4"
    unfolding N by (simp_all add: ty entry_in_table_def)
  from fat_entries_beyond_clusters [OF ok l fb k r3 c3 n3 t3] ty ce
  have a: "fat_entry UFAT_TYPE_FAT12 ?copy 3 = 0xff7 \<and>
           take 3 (drop 3 ?copy) = [0x00, 0x70, 0xff] \<and>
           fat_entry UFAT_TYPE_FAT12 ?copy 2 = 0"
    by (simp add: bad_marker_def)
  from fat_entries_beyond_clusters [OF ok l fb k r4 c4 n4 t4] ty N
  have b: "take 3 (drop 6 ?copy) = [0xf7, 0x7f, 0xff]"
    by simp
  from ok l fb k ty r3 ce n3 t3 a b show ?thesis by simp
qed

text \<open>
  The FAT16 table on a device with blocks of one byte.
\<close>

lemma layout_4300800_0: "c_fl (layout_body 4300800 0) =
      \<lparr>log2_sector_size = 9, log2_bpc = 10, reserved_blocks = 512,
          root_blocks = 16476, fat_blocks = 8402, logical_blocks = 4300800,
          clusters = 4169, fs_type = UFAT_TYPE_FAT16\<rparr>"
  by code_simp

lemma dev_write_cong:
  "map buf [0 ..< 2 ^ log2_block_size dev] = map buf' [0 ..< 2 ^ log2_block_size dev] \<Longrightarrow>
   dev_write dev a buf = dev_write dev a buf'"
  by (simp only: dev_write_def)

lemma fat16_fill_1:
  "fat16_fill cl 1 buf c 0 = (if c \<ge> cl then w16 buf 0 0xfff7 else buf, c + 1)"
  by (subst fat16_fill.simps, subst fat16_fill.simps) simp

lemma fat16_body_1:
  assumes b: "b = (if block = unat (fat_blocks fl) then 0 else block)"
    and inv: "block = unat (fat_blocks fl) \<or> c = of_nat block"
  obtains buf where "fat16_body stk 1 fl block c = (b, buf, of_nat (b + 1))"
    and "buf 0 = fat16_byte_1 (clusters fl) b"
proof -
  let ?cl = "clusters fl"
  let ?z = "memset_buf stk 0 0 1"
  let ?f = "if ?cl \<le> of_nat b then w16 ?z 0 0xfff7 else ?z"
  let ?buf = "if b = 0 then w16 (w16 ?f 0 (0xff00 OR ucast MEDIA_DISK)) 2 0xfff8 else ?f"
  have st: "(if block = unat (fat_blocks fl) then (0, 0) else (block, c)) = (b, of_nat b)"
    using b inv by auto
  have fill: "fat16_fill ?cl 1 ?z (of_nat b) 0 = (?f, of_nat (b + 1))"
    using fat16_fill_1 [of ?cl ?z "of_nat b"] by simp
  have body: "fat16_body stk 1 fl block c = (b, ?buf, of_nat (b + 1))"
    unfolding fat16_body_def Let_def st prod.case fill ..
  have "?buf 0 = fat16_byte_1 ?cl b"
    by (simp add: fat16_byte_1_def w16_fff8 w16_fff7 memset_buf_def)
  with body show ?thesis by (rule that)
qed

lemma fat16_loop_writes_1:
  assumes "log2_block_size dev = 0"
    and "unat (fat_blocks fl * 2) = 2 * unat (fat_blocks fl)"
    and "block = block_at fl i"
    and "block = unat (fat_blocks fl) \<or> c = of_nat block"
  shows "fat16_loop stk dev fl i block c =
           write_all dev (table_writes (fat16_byte_1 (clusters fl)) stk (2 ^ log2_block_size dev) fl i)"
  using assms
proof (induction stk dev fl i block c rule: fat16_loop.induct)
  case (1 stk dev fl i block c)
  let ?fb = "unat (fat_blocks fl)"
  let ?byte = "fat16_byte_1 (clusters fl)"
  from "1.prems"(1) have bs: "(2::nat) ^ log2_block_size dev = 1" by simp
  show ?case
  proof (cases "i < unat (fat_blocks fl * 2)")
    case False
    with "1.prems"(2) have "\<not> i < 2 * ?fb" by simp
    from table_writes_done [OF this] False show ?thesis
      by (subst fat16_loop.simps) simp
  next
    case True
    with "1.prems"(2) have lt: "i < 2 * ?fb" by simp
    let ?b = "i mod ?fb"
    have reset: "?b = (if block = ?fb then 0 else block)"
      using lt "1.prems"(3) by (rule block_at_reset)
    from reset "1.prems"(4) obtain buf
      where body: "fat16_body stk 1 fl block c = (?b, buf, of_nat (?b + 1))"
        and buf0: "buf 0 = ?byte ?b"
      by (rule fat16_body_1)
    let ?a = "reserved_blocks fl + of_nat i"
    let ?tb = "table_buf ?byte stk 1 ?b"
    have "map buf [0 ..< 2 ^ log2_block_size dev] = map ?tb [0 ..< 2 ^ log2_block_size dev]"
      unfolding bs using buf0 by (simp add: table_buf_def)
    then have wr: "dev_write dev ?a buf = dev_write dev ?a ?tb" by (rule dev_write_cong)
    note step = table_writes_step [OF lt, of ?byte stk 1]
    show ?thesis
    proof (cases rule: dev_write_cases [of dev ?a ?tb])
      case (1 dev')
      with True body wr step show ?thesis
        by (subst fat16_loop.simps) (simp add: bs)
    next
      case (2 dev')
      from dev_write_True [OF 2] have l: "log2_block_size dev' = log2_block_size dev" by simp
      from 2 wr have w: "dev_write dev ?a buf = (True, dev')" by simp
      have p1: "log2_block_size dev' = 0" using "1.prems"(1) l by simp
      have p3: "?b + 1 = block_at fl (i + 1)" using block_at_next [OF lt] by simp
      have p4: "?b + 1 = ?fb \<or> (of_nat (?b + 1) :: uint32_t) = of_nat (?b + 1)" by simp
      have b1: "fat16_body stk (2 ^ log2_block_size dev) fl block c = (?b, buf, of_nat (?b + 1))"
        unfolding bs by (rule body)
      have "fat16_loop stk dev' fl (i + 1) (?b + 1) (of_nat (?b + 1)) =
            write_all dev' (table_writes ?byte stk (2 ^ log2_block_size dev') fl (i + 1))"
        by (rule "1.IH" [OF True b1 [symmetric] refl w [symmetric] refl p1 "1.prems"(2) p3 p4])
      with True b1 w 2 l step show ?thesis
        by (subst fat16_loop.simps) (simp add: bs)
    qed
  qed
qed

lemma init_fat16_copy_1:
  assumes ok: "init_fat stk dev fl = (Inr (), dev')"
    and ty: "fs_type fl = UFAT_TYPE_FAT16"
    and l: "log2_block_size dev = 0"
    and fb: "unat (fat_blocks fl) < 2 ^ 63"
    and k: "k < 2"
  shows "fat_copy dev' fl k = map (fat16_byte_1 (clusters fl)) [0 ..< unat (fat_blocks fl)]"
proof -
  note t = twice_blocks [OF fb]
  have b0: "0 = block_at fl 0" by (simp add: block_at_def)
  have "fat16_loop stk dev fl 0 0 0 =
          write_all dev (table_writes (fat16_byte_1 (clusters fl)) stk (2 ^ log2_block_size dev) fl 0)"
    using l t b0 by (rule fat16_loop_writes_1) simp
  with ok ty l have "write_all dev (table_writes (fat16_byte_1 (clusters fl)) stk
                        (2 ^ log2_block_size dev) fl 0) = (Inr (), dev')"
    by (simp add: init_fat_def init_fat16_def BUF_BLOCK_SIZE_def)
  from fat_copy_bytes [OF this fb k] l show ?thesis by simp
qed

text \<open>
  The blocks that the later steps of \<open>ufat_mkfs\<close> leave as they are.
\<close>

lemma erase_loop_other:
  "erase_loop dev start count buf i = (Inr (), dev') \<Longrightarrow>
   (\<And>j. i \<le> j \<Longrightarrow> j < count \<Longrightarrow> a \<noteq> start + of_nat j) \<Longrightarrow>
   dev_blocks dev' a = dev_blocks dev a"
proof (induction dev start count buf i rule: erase_loop.induct)
  case (1 dev start count buf i)
  show ?case
  proof (cases "i < count")
    case False
    with "1.prems"(1) show ?thesis by (subst (asm) erase_loop.simps) simp
  next
    case True
    show ?thesis
    proof (cases rule: dev_write_cases [of dev "start + of_nat i" buf])
      case (1 d)
      with True "1.prems"(1) show ?thesis by (subst (asm) erase_loop.simps) simp
    next
      case (2 d)
      with True "1.prems"(1) have r: "erase_loop d start count buf (i + 1) = (Inr (), dev')"
        by (subst (asm) erase_loop.simps) simp
      have "dev_blocks dev' a = dev_blocks d a"
      proof (rule "1.IH" [OF True 2 [symmetric] refl r])
        fix j assume "i + 1 \<le> j" "j < count"
        then show "a \<noteq> start + of_nat j" by (intro "1.prems"(2)) simp_all
      qed
      moreover from "1.prems"(2) [of i] True have "a \<noteq> start + of_nat i" by simp
      ultimately show ?thesis using dev_write_True [OF 2] by simp
    qed
  qed
qed

lemma erase_blocks_other:
  assumes "erase_blocks stk dev start count = (Inr (), dev')"
    and "\<And>j. j < unat count \<Longrightarrow> a \<noteq> start + of_nat j"
  shows "dev_blocks dev' a = dev_blocks dev a"
proof -
  from assms(1) have "erase_loop dev start (unat count)
      (memset_buf stk 0 0 (2 ^ log2_block_size dev)) 0 = (Inr (), dev')"
    by (simp add: erase_blocks_def Let_def split: if_splits)
  then show ?thesis by (rule erase_loop_other) (rule assms(2))
qed

lemma write_bpb_other:
  assumes "write_bpb stk d fl = (Inr (), d')" and "fs_type fl \<noteq> UFAT_TYPE_FAT32" and "a \<noteq> 0"
  shows "dev_blocks d' a = dev_blocks d a"
proof (cases rule: dev_write_cases [of d 0 "bpb_buf stk (log2_block_size d) fl"])
  case (1 dev')
  with assms show ?thesis by (simp add: write_bpb_def Let_def split: if_splits)
next
  case (2 dev')
  with assms have "d' = dev'" by (simp add: write_bpb_def Let_def split: if_splits)
  with dev_write_True [OF 2] assms(3) show ?thesis by simp
qed

lemma mkfs_steps:
  assumes ok: "ufat_mkfs stk dev nblk = (Inr (), dev')"
    and ty: "fs_type (c_fl (layout_body nblk (log2_block_size dev))) \<noteq> UFAT_TYPE_FAT32"
  obtains d1 d2 d3 where
    "erase_reserved_blocks stk dev (c_fl (layout_body nblk (log2_block_size dev))) = (Inr (), d1)"
    and "init_fat stk d1 (c_fl (layout_body nblk (log2_block_size dev))) = (Inr (), d2)"
    and "init_root_blocks stk d2 (c_fl (layout_body nblk (log2_block_size dev))) = (Inr (), d3)"
    and "write_bpb stk d3 (c_fl (layout_body nblk (log2_block_size dev))) = (Inr (), dev')"
proof -
  let ?fl = "c_fl (layout_body nblk (log2_block_size dev))"
  have le12: "log2_block_size dev \<le> 12"
    using ok by (cases "log2_block_size dev \<le> 12") (simp_all add: ufat_mkfs_def calculate_layout_def)
  then have cl: "calculate_layout nblk (log2_block_size dev) = Inr ?fl"
    by (simp add: calculate_layout_def)
  from ok cl obtain d1 where e1: "erase_reserved_blocks stk dev ?fl = (Inr (), d1)"
    by (auto simp: ufat_mkfs_def split: sum.splits prod.splits)
  from ok cl e1 obtain d2 where e2: "init_fat stk d1 ?fl = (Inr (), d2)"
    by (auto simp: ufat_mkfs_def split: sum.splits prod.splits)
  from ok cl e1 e2 ty obtain d3 where e3: "init_root_blocks stk d2 ?fl = (Inr (), d3)"
    by (auto simp: ufat_mkfs_def split: sum.splits prod.splits)
  from ok cl e1 e2 e3 ty have "write_bpb stk d3 ?fl = (Inr (), dev')"
    by (simp add: ufat_mkfs_def)
  with e1 e2 e3 show ?thesis by (rule that)
qed

lemma of_nat_64_neq:
  assumes "p < 18446744073709551616" "q < 18446744073709551616" "p \<noteq> q"
  shows "(of_nat p :: ufat_block_t) \<noteq> of_nat q"
  using of_nat_64_inj [OF assms(1,2)] assms(3) by blast


section \<open>The claims\<close>

text \<open>
  C9: \<open>ufat_mkfs\<close> returns the block-size error exactly when the block size of the
  device exceeds 4096 bytes; it then leaves the device as it was, without a single call
  of \<open>write\<close> (the device record counts them); and for every other block size the
  layout calculation succeeds.
\<close>

theorem block_size_error_iff:
  "(fst (ufat_mkfs stk dev nblk) = Inl UFAT_ERR_BLOCK_SIZE
      \<longleftrightarrow> (4096::nat) < 2 ^ log2_block_size dev) \<and>
   ((4096::nat) < 2 ^ log2_block_size dev \<longrightarrow> snd (ufat_mkfs stk dev nblk) = dev) \<and>
   (\<not> (4096::nat) < 2 ^ log2_block_size dev \<longrightarrow>
      calculate_layout nblk (log2_block_size dev)
        = Inr (c_fl (layout_body nblk (log2_block_size dev))))"
proof -
  consider "log2_block_size dev \<le> 10" | "10 < log2_block_size dev" "log2_block_size dev \<le> 12"
    | "12 < log2_block_size dev" by linarith
  then show ?thesis
  proof cases
    case 1
    from mkfs_io [OF 1, of stk nblk] have "fst (ufat_mkfs stk dev nblk) \<noteq> Inl UFAT_ERR_BLOCK_SIZE"
      by (auto simp: io_ok_def)
    with 1 show ?thesis by (simp add: pow_gt_4096 calculate_layout_def)
  next
    case 2
    with mkfs_assert [OF 2, of stk nblk] show ?thesis
      by (simp add: pow_gt_4096 calculate_layout_def)
  next
    case 3
    with mkfs_block_size [OF 3, of stk nblk] show ?thesis by (simp add: pow_gt_4096)
  qed
qed

theorem block_size_error_iff_witness:
  "(4096::nat) < 2 ^ log2_block_size (dev0 13) \<and>
   ufat_mkfs stk0 (dev0 13) 8000 = (Inl UFAT_ERR_BLOCK_SIZE, dev0 13) \<and>
   \<not> (4096::nat) < 2 ^ log2_block_size (dev0 12) \<and>
   fst (ufat_mkfs stk0 (dev0 12) 8000) \<noteq> Inl UFAT_ERR_BLOCK_SIZE \<and>
   calculate_layout 8000 12 = Inr (c_fl (layout_body 8000 12))"
proof -
  have a: "(4096::nat) < 2 ^ log2_block_size (dev0 13)" by (simp add: dev0_def)
  have b: "\<not> (4096::nat) < 2 ^ log2_block_size (dev0 12)" by (simp add: dev0_def)
  have l: "log2_block_size (dev0 12) = 12" by (simp add: dev0_def)
  from block_size_error_iff [of stk0 "dev0 13" 8000] a
  have "ufat_mkfs stk0 (dev0 13) 8000 = (Inl UFAT_ERR_BLOCK_SIZE, dev0 13)"
    by (simp add: prod_eq_iff)
  moreover from block_size_error_iff [of stk0 "dev0 12" 8000] b l
  have "fst (ufat_mkfs stk0 (dev0 12) 8000) \<noteq> Inl UFAT_ERR_BLOCK_SIZE \<and>
        calculate_layout 8000 12 = Inr (c_fl (layout_body 8000 12))"
    by simp
  ultimately show ?thesis using a b by simp
qed

text \<open>
  C2: the claim says that the 1024-byte buffer holds a block of every accepted size.  The
  layout calculator accepts blocks of 2048 bytes, which the buffer does not hold: the
  assertion \<open>BUF_BLOCK_SIZE >= block_size\<close> of \<open>erase_blocks\<close> fails and ends the call.
\<close>

theorem buffer_assert_fails:
  "calculate_layout nblk 11 = Inr (c_fl (layout_body nblk 11)) \<and>
   \<not> BUF_BLOCK_SIZE \<ge> (2::nat) ^ 11 \<and>
   ufat_mkfs stk (dev\<lparr>log2_block_size := 11\<rparr>) nblk
     = (Inl ASSERT_FAILED, dev\<lparr>log2_block_size := 11\<rparr>)"
proof -
  have "ufat_mkfs stk (dev\<lparr>log2_block_size := 11\<rparr>) nblk
     = (Inl ASSERT_FAILED, dev\<lparr>log2_block_size := 11\<rparr>)"
    by (rule mkfs_assert) simp_all
  then show ?thesis by (simp add: calculate_layout_def BUF_BLOCK_SIZE_def)
qed



text \<open>
  C8, as the claim states it, fails: with 512-byte blocks and 8000 blocks the search
  starts at exponent 1, so a cluster has 2 sectors, not 1, and the root directory takes
  the block left over, so it has 33 sectors, not 32.
\<close>

theorem cluster_search_counterexample:
  "calculate_layout 8000 9 =
     Inr \<lparr> log2_sector_size = 9, log2_bpc = 1, reserved_blocks = 1, root_blocks = 33,
           fat_blocks = 12, logical_blocks = 8000, clusters = 3973,
           fs_type = UFAT_TYPE_FAT12 \<rparr> \<and>
   s_log2_bps (layout_sizing 8000 9) = 0 \<and>
   s_spc0 (layout_sizing 8000 9) \<noteq> 0 \<and> (2::nat) ^ 1 \<noteq> 1 \<and> (33 :: ufat_block_t) \<noteq> 32"
  by code_simp

text \<open>
  C8, amended: the search starts at exponent 1 (2 sectors per cluster) for FAT12 and
  FAT16 and at exponent 3 (8 sectors per cluster) for FAT32; the exponent then grows by
  one while it is below 7, the cluster is below 32 kB and the projected cluster count
  exceeds the ceiling of the type (4096, 65536, 2097152), and it stops at the first
  exponent where one of these fails.
\<close>

theorem cluster_size_search:
  assumes "calculate_layout nblk lbs = Inr fl"
  shows "s_spc0 (layout_sizing nblk lbs) = (if fs_type fl = UFAT_TYPE_FAT32 then 3 else 1) \<and>
         s_threshold (layout_sizing nblk lbs) =
           (case fs_type fl of UFAT_TYPE_FAT12 \<Rightarrow> 4096 | UFAT_TYPE_FAT16 \<Rightarrow> 65536
              | UFAT_TYPE_FAT32 \<Rightarrow> 2097152) \<and>
         log2_bpc fl = s_log2_bps (layout_sizing nblk lbs) + s_log2_spc (layout_sizing nblk lbs) \<and>
         s_spc0 (layout_sizing nblk lbs) \<le> s_log2_spc (layout_sizing nblk lbs) \<and>
         (\<forall>k. s_spc0 (layout_sizing nblk lbs) \<le> k \<and> k < s_log2_spc (layout_sizing nblk lbs) \<longrightarrow>
              k < 7 \<and> log2_sector_size fl + k < 15 \<and>
              s_threshold (layout_sizing nblk lbs) < drop_bit k (s_nsect (layout_sizing nblk lbs))) \<and>
         \<not> (s_log2_spc (layout_sizing nblk lbs) < 7 \<and>
            log2_sector_size fl + s_log2_spc (layout_sizing nblk lbs) < 15 \<and>
            s_threshold (layout_sizing nblk lbs)
              < drop_bit (s_log2_spc (layout_sizing nblk lbs)) (s_nsect (layout_sizing nblk lbs))) \<and>
         calculate_layout 8000 9 =
           Inr \<lparr> log2_sector_size = 9, log2_bpc = 1, reserved_blocks = 1, root_blocks = 33,
                 fat_blocks = 12, logical_blocks = 8000, clusters = 3973,
                 fs_type = UFAT_TYPE_FAT12 \<rparr>"
proof -
  let ?sz = "layout_sizing nblk lbs"
  from assms have fl: "fl = c_fl (layout_regions lbs ?sz)"
    by (simp add: calculate_layout_Inr layout_body_def)
  have ty: "fs_type fl = s_type ?sz" unfolding fl by (rule regions_type)
  have lss: "log2_sector_size fl = lbs + s_log2_bps ?sz" unfolding fl by (rule regions_lss)
  have bpc: "log2_bpc fl = s_log2_bps ?sz + s_log2_spc ?sz" unfolding fl by (rule regions_bpc)
  have spc: "s_log2_spc ?sz = grow_spc (log2_sector_size fl) (s_nsect ?sz) (s_threshold ?sz) (s_spc0 ?sz)"
    unfolding lss by (rule sizing_spc)
  have 1: "s_spc0 ?sz = (if fs_type fl = UFAT_TYPE_FAT32 then 3 else 1)"
    unfolding ty by (rule sizing_spc0)
  have 2: "s_threshold ?sz = (case fs_type fl of UFAT_TYPE_FAT12 \<Rightarrow> 4096
             | UFAT_TYPE_FAT16 \<Rightarrow> 65536 | UFAT_TYPE_FAT32 \<Rightarrow> 2097152)"
    unfolding ty by (rule sizing_threshold)
  have 3: "s_spc0 ?sz \<le> s_log2_spc ?sz" unfolding spc by (rule grow_spc_ge)
  have 4: "\<forall>k. s_spc0 ?sz \<le> k \<and> k < s_log2_spc ?sz \<longrightarrow>
              k < 7 \<and> log2_sector_size fl + k < 15 \<and> s_threshold ?sz < drop_bit k (s_nsect ?sz)"
    unfolding spc using grow_spc_during by blast
  have 5: "\<not> (s_log2_spc ?sz < 7 \<and> log2_sector_size fl + s_log2_spc ?sz < 15 \<and>
            s_threshold ?sz < drop_bit (s_log2_spc ?sz) (s_nsect ?sz))"
    unfolding spc by (rule grow_spc_exit)
  have 6: "calculate_layout 8000 9 =
           Inr \<lparr> log2_sector_size = 9, log2_bpc = 1, reserved_blocks = 1, root_blocks = 33,
                 fat_blocks = 12, logical_blocks = 8000, clusters = 3973,
                 fs_type = UFAT_TYPE_FAT12 \<rparr>"
    by (simp add: calculate_layout_def layout_8000)
  from 1 2 bpc 3 4 5 6 show ?thesis by blast
qed

theorem cluster_size_search_witness:
  "calculate_layout 8000 9 = Inr (c_fl (layout_body 8000 9)) \<and>
   fs_type (c_fl (layout_body 8000 9)) = UFAT_TYPE_FAT12 \<and>
   s_spc0 (layout_sizing 8000 9) = 1 \<and>
   log2_bpc (c_fl (layout_body 8000 9)) = 1 \<and>
   reserved_blocks (c_fl (layout_body 8000 9)) = 1 \<and>
   root_blocks (c_fl (layout_body 8000 9)) = 33"
proof -
  have h: "calculate_layout 8000 9 = Inr (c_fl (layout_body 8000 9))"
    by (simp add: calculate_layout_def)
  have t: "fs_type (c_fl (layout_body 8000 9)) = UFAT_TYPE_FAT12"
    by (simp add: layout_8000)
  from cluster_size_search [OF h]
  have "s_spc0 (layout_sizing 8000 9) =
          (if fs_type (c_fl (layout_body 8000 9)) = UFAT_TYPE_FAT32 then 3 else 1)"
    by blast
  with t have "s_spc0 (layout_sizing 8000 9) = 1" by simp
  with h t show ?thesis by (simp add: layout_8000)
qed

text \<open>
  C1: the claim says that the boot sector gives back the reserved sector count and the
  FAT size of the layout.  \<open>write_bpb\<close> turns blocks into sectors with a shift to the
  left by \<open>log2_bps\<close>, where \<open>calculate_layout\<close> turns sectors into blocks with that
  same shift.  On a device with 256-byte blocks (two blocks per sector) the layout
  reserves 2 blocks, which is 1 sector, and the boot sector says 4 sectors; the FAT has
  1 block and the boot sector says 2 sectors.
\<close>

theorem bpb_roundtrip_fails:
  "fst (ufat_mkfs stk0 (dev0 8) 100) = Inr () \<and>
   s_log2_bps (layout_sizing 100 8) = 1 \<and>
   reserved_blocks (c_fl (layout_body 100 8)) = 2 \<and>
   fat_blocks (c_fl (layout_body 100 8)) = 1 \<and>
   bpb_bytes_per_sector (parse_boot_sector (dev_blocks (snd (ufat_mkfs stk0 (dev0 8) 100)) 0)) = 512 \<and>
   bpb_sectors_per_cluster (parse_boot_sector (dev_blocks (snd (ufat_mkfs stk0 (dev0 8) 100)) 0)) = 2 \<and>
   bpb_reserved_sectors (parse_boot_sector (dev_blocks (snd (ufat_mkfs stk0 (dev0 8) 100)) 0)) = 4 \<and>
   bpb_fat_size (parse_boot_sector (dev_blocks (snd (ufat_mkfs stk0 (dev0 8) 100)) 0)) = 2"
proof -
  let ?fl = "c_fl (layout_body 100 8)"
  have ok: "fst (ufat_mkfs stk0 (dev0 8) 100) = Inr ()" by (rule mkfs_dev0_ok) simp
  then have "ufat_mkfs stk0 (dev0 8) 100 = (Inr (), snd (ufat_mkfs stk0 (dev0 8) 100))"
    by (simp add: prod_eq_iff)
  from mkfs_block0 [OF this]
  have b0: "dev_blocks (snd (ufat_mkfs stk0 (dev0 8) 100)) 0 = map (bpb_buf stk0 8 ?fl) [0 ..< 256]"
    by (simp add: dev0_def)
  have v: "bpb_buf stk0 8 ?fl 0x00b = 0" "bpb_buf stk0 8 ?fl 0x00c = 2"
     "bpb_buf stk0 8 ?fl 0x00d = 2" "bpb_buf stk0 8 ?fl 0x00e = 4" "bpb_buf stk0 8 ?fl 0x00f = 0"
     "bpb_buf stk0 8 ?fl 0x016 = 2" "bpb_buf stk0 8 ?fl 0x017 = 0"
    unfolding layout_100_8 by code_simp+
  have p: "bpb_bytes_per_sector (parse_boot_sector (map (bpb_buf stk0 8 ?fl) [0 ..< 256])) = 512"
      "bpb_sectors_per_cluster (parse_boot_sector (map (bpb_buf stk0 8 ?fl) [0 ..< 256])) = 2"
      "bpb_reserved_sectors (parse_boot_sector (map (bpb_buf stk0 8 ?fl) [0 ..< 256])) = 4"
      "bpb_fat_size (parse_boot_sector (map (bpb_buf stk0 8 ?fl) [0 ..< 256])) = 2"
    by (simp_all add: parse_boot_sector_def le16_def le32_def v del: upt_Suc)
  show ?thesis unfolding b0 using ok p by (simp add: sizing_100_8 layout_100_8)
qed

text \<open>
  C6: the claim says that the final cluster count never exceeds the estimate.  On a
  device of 16 blocks of 512 bytes the reserved, root directory and FAT regions need 35
  blocks, the subtraction wraps around, and the final count is 4294967288 where the
  estimate is 9.
\<close>

theorem final_clusters_exceed_estimate:
  "calculate_layout 16 9 = Inr (c_fl (layout_body 16 9)) \<and>
   c_est_clusters (layout_body 16 9) = 9 \<and>
   clusters (c_fl (layout_body 16 9)) = 4294967288 \<and>
   \<not> clusters (c_fl (layout_body 16 9)) \<le> c_est_clusters (layout_body 16 9)"
  by (simp add: calculate_layout_def layout_16)

text \<open>
  C7: the claim says that the total is the sum of the regions and at most the requested
  block count.  On the same device of 16 blocks the total is 16, but the regions of the
  layout add up to 18446744078004518928 blocks: the root directory alone has more blocks
  than the device.
\<close>

theorem region_sum_exceeds_total:
  "calculate_layout 16 9 = Inr (c_fl (layout_body 16 9)) \<and>
   unat (logical_blocks (c_fl (layout_body 16 9))) = 16 \<and>
   unat (reserved_blocks (c_fl (layout_body 16 9)))
     + 2 * unat (fat_blocks (c_fl (layout_body 16 9)))
     + unat (root_blocks (c_fl (layout_body 16 9)))
     + (unat (clusters (c_fl (layout_body 16 9))) - 2) * 2 ^ log2_bpc (c_fl (layout_body 16 9))
     = 18446744078004518928"
  by (simp add: calculate_layout_def layout_16)

text \<open>
  C10, as the claim states it, fails: the signature is at the fixed offsets \<open>0x1fe\<close> and
  \<open>0x1ff\<close>, which are not the last two bytes of a logical sector of 1024 bytes.  A
  device with 1024-byte blocks is formatted successfully and the last two bytes of its
  first sector are zero.
\<close>

theorem boot_signature_counterexample:
  "fst (ufat_mkfs stk0 (dev0 10) 40) = Inr () \<and>
   log2_sector_size (c_fl (layout_body 40 10)) = 10 \<and>
   dev_blocks (snd (ufat_mkfs stk0 (dev0 10) 40)) 0 ! (2 ^ 10 - 2) = 0 \<and>
   dev_blocks (snd (ufat_mkfs stk0 (dev0 10) 40)) 0 ! (2 ^ 10 - 1) = 0 \<and>
   (0 :: uint8_t) \<noteq> 0x55 \<and> (0 :: uint8_t) \<noteq> 0xaa"
proof -
  have ok: "fst (ufat_mkfs stk0 (dev0 10) 40) = Inr ()" by (rule mkfs_dev0_ok) simp
  then have "ufat_mkfs stk0 (dev0 10) 40 = (Inr (), snd (ufat_mkfs stk0 (dev0 10) 40))"
    by (simp add: prod_eq_iff)
  from mkfs_block0 [OF this]
  have b0: "dev_blocks (snd (ufat_mkfs stk0 (dev0 10) 40)) 0 =
              map (bpb_buf stk0 10 (c_fl (layout_body 40 10))) [0 ..< 2 ^ 10]"
    by (simp add: dev0_def)
  have "bpb_buf stk0 10 (c_fl (layout_body 40 10)) 1022 = 0"
       "bpb_buf stk0 10 (c_fl (layout_body 40 10)) 1023 = 0"
    by (rule bpb_high_zero; simp)+
  with ok b0 show ?thesis by (simp add: layout_40_10)
qed

text \<open>
  C10, amended: for every successfully formatted device, the buffer written to block 0
  carries \<open>0x55 0xaa\<close> at the byte offsets \<open>0x1fe\<close> and \<open>0x1ff\<close>; block 0 of the
  device is the first block of that buffer, so it carries them there when a block has at
  least 512 bytes, and these are the last two bytes of the logical sector when the block
  and the sector have 512 bytes.
\<close>

theorem boot_signature:
  assumes "ufat_mkfs stk dev nblk = (Inr (), dev')"
  shows "bpb_buf stk (log2_block_size dev) (c_fl (layout_body nblk (log2_block_size dev))) 0x1fe = 0x55 \<and>
         bpb_buf stk (log2_block_size dev) (c_fl (layout_body nblk (log2_block_size dev))) 0x1ff = 0xaa \<and>
         dev_blocks dev' 0 =
           map (bpb_buf stk (log2_block_size dev) (c_fl (layout_body nblk (log2_block_size dev))))
               [0 ..< 2 ^ log2_block_size dev] \<and>
         (9 \<le> log2_block_size dev \<longrightarrow>
            dev_blocks dev' 0 ! 0x1fe = 0x55 \<and> dev_blocks dev' 0 ! 0x1ff = 0xaa) \<and>
         (log2_block_size dev = 9 \<and>
          log2_sector_size (c_fl (layout_body nblk (log2_block_size dev))) = 9 \<longrightarrow>
            dev_blocks dev' 0 ! (2 ^ log2_sector_size (c_fl (layout_body nblk (log2_block_size dev))) - 2) = 0x55 \<and>
            dev_blocks dev' 0 ! (2 ^ log2_sector_size (c_fl (layout_body nblk (log2_block_size dev))) - 1) = 0xaa)"
proof -
  let ?l = "log2_block_size dev"
  let ?buf = "bpb_buf stk ?l (c_fl (layout_body nblk ?l))"
  note b0 = mkfs_block0 [OF assms]
  have sig: "?buf 0x1fe = 0x55" "?buf 0x1ff = 0xaa" using bpb_signature by blast+
  have idx: "dev_blocks dev' 0 ! 0x1fe = 0x55 \<and> dev_blocks dev' 0 ! 0x1ff = 0xaa" if "9 \<le> ?l"
  proof -
    from that have "(2::nat) ^ 9 \<le> 2 ^ ?l" by (rule power_increasing) simp
    then have "(0x1fe::nat) < 2 ^ ?l" "(0x1ff::nat) < 2 ^ ?l" by simp_all
    with b0 sig show ?thesis by simp
  qed
  have "dev_blocks dev' 0 ! (2 ^ 9 - 2) = 0x55 \<and> dev_blocks dev' 0 ! (2 ^ 9 - 1) = 0xaa" if "?l = 9"
    using idx that by simp
  with b0 sig idx show ?thesis by auto
qed

theorem boot_signature_witness:
  "ufat_mkfs stk0 (dev0 9) 40 = (Inr (), snd (ufat_mkfs stk0 (dev0 9) 40)) \<and>
   log2_block_size (dev0 9) = 9 \<and>
   log2_sector_size (c_fl (layout_body 40 (log2_block_size (dev0 9)))) = 9 \<and>
   dev_blocks (snd (ufat_mkfs stk0 (dev0 9) 40)) 0 ! 510 = 0x55 \<and>
   dev_blocks (snd (ufat_mkfs stk0 (dev0 9) 40)) 0 ! 511 = 0xaa"
proof -
  have "fst (ufat_mkfs stk0 (dev0 9) 40) = Inr ()" by (rule mkfs_dev0_ok) simp
  then have ok: "ufat_mkfs stk0 (dev0 9) 40 = (Inr (), snd (ufat_mkfs stk0 (dev0 9) 40))"
    by (simp add: prod_eq_iff)
  have l: "log2_block_size (dev0 9) = 9" by (simp add: dev0_def)
  have s: "log2_sector_size (c_fl (layout_body 40 (log2_block_size (dev0 9)))) = 9"
    by (simp add: l layout_40_9)
  from boot_signature [OF ok] l
  have "dev_blocks (snd (ufat_mkfs stk0 (dev0 9) 40)) 0 ! 0x1fe = 0x55 \<and>
        dev_blocks (snd (ufat_mkfs stk0 (dev0 9) 40)) 0 ! 0x1ff = 0xaa"
    by simp
  with ok l s show ?thesis by simp
qed




text \<open>
  C5: the claim says that in every initialized FAT copy every entry at or beyond the
  final cluster count is the bad-cluster marker of the type, \<open>0xfff7\<close> for FAT16.  The
  layout calculator accepts blocks of one byte and sizes the table at two bytes an
  entry, but the loop of \<open>init_fat16\<close> writes one entry to a block and counts one entry
  to a block, so that only the low byte \<open>0xf7\<close> of each marker reaches the device.  A
  device of 4300800 blocks of one byte is formatted successfully as FAT16 with 4169
  clusters and a table of 8402 bytes, and the entries 4169 and 4200 of its table read
  \<open>0xf7f7\<close>.
\<close>

theorem fat16_entries_on_byte_blocks:
  "calculate_layout 4300800 (log2_block_size (dev0 0)) = Inr (c_fl (layout_body 4300800 0)) \<and>
   fs_type (c_fl (layout_body 4300800 0)) = UFAT_TYPE_FAT16 \<and>
   clusters (c_fl (layout_body 4300800 0)) = 4169 \<and>
   fat_blocks (c_fl (layout_body 4300800 0)) = 8402 \<and>
   ufat_mkfs stk0 (dev0 0) 4300800 = (Inr (), snd (ufat_mkfs stk0 (dev0 0) 4300800)) \<and>
   entry_in_table UFAT_TYPE_FAT16 (8402 * 2 ^ log2_block_size (dev0 0)) 4169 \<and>
   entry_in_table UFAT_TYPE_FAT16 (8402 * 2 ^ log2_block_size (dev0 0)) 4200 \<and>
   fat_entry UFAT_TYPE_FAT16
     (fat_copy (snd (ufat_mkfs stk0 (dev0 0) 4300800)) (c_fl (layout_body 4300800 0)) 0) 4169
     = 0xf7f7 \<and>
   fat_entry UFAT_TYPE_FAT16
     (fat_copy (snd (ufat_mkfs stk0 (dev0 0) 4300800)) (c_fl (layout_body 4300800 0)) 1) 4200
     = 0xf7f7 \<and>
   fat_entry UFAT_TYPE_FAT16
     (fat_copy (snd (init_fat stk0 (dev0 0) (c_fl (layout_body 4300800 0))))
        (c_fl (layout_body 4300800 0)) 0) 4169 = 0xf7f7 \<and>
   bad_marker UFAT_TYPE_FAT16 = 0xfff7 \<and>
   fat_entry UFAT_TYPE_FAT16
     (fat_copy (snd (ufat_mkfs stk0 (dev0 0) 4300800)) (c_fl (layout_body 4300800 0)) 0) 4169
     \<noteq> bad_marker UFAT_TYPE_FAT16"
proof -
  let ?fl = "c_fl (layout_body 4300800 0)"
  let ?dev' = "snd (ufat_mkfs stk0 (dev0 0) 4300800)"
  let ?di = "snd (init_fat stk0 (dev0 0) ?fl)"
  have l: "log2_block_size (dev0 0) = 0" by (simp add: dev0_def)
  have cl: "calculate_layout 4300800 (log2_block_size (dev0 0)) = Inr ?fl"
    by (simp add: calculate_layout_def l)
  have ty: "fs_type ?fl = UFAT_TYPE_FAT16" by (simp add: layout_4300800_0)
  have c: "clusters ?fl = 4169" by (simp add: layout_4300800_0)
  have f: "fat_blocks ?fl = 8402" by (simp add: layout_4300800_0)
  have r: "reserved_blocks ?fl = 512" by (simp add: layout_4300800_0)
  have rt: "root_blocks ?fl = 16476" by (simp add: layout_4300800_0)
  have "fst (ufat_mkfs stk0 (dev0 0) 4300800) = Inr ()" by (rule mkfs_dev0_ok) simp
  then have ok: "ufat_mkfs stk0 (dev0 0) 4300800 = (Inr (), ?dev')" by (simp add: prod_eq_iff)
  have oki: "init_fat stk0 (dev0 0) ?fl = (Inr (), ?di)" by (rule init_fat_dev0) simp
  have fb: "unat (fat_blocks ?fl) < 2 ^ 63" by (simp add: f)
  have t1: "entry_in_table UFAT_TYPE_FAT16 (8402 * 2 ^ log2_block_size (dev0 0)) 4169"
    by (simp add: entry_in_table_def l)
  have t2: "entry_in_table UFAT_TYPE_FAT16 (8402 * 2 ^ log2_block_size (dev0 0)) 4200"
    by (simp add: entry_in_table_def l)
  have ty': "fs_type (c_fl (layout_body 4300800 (log2_block_size (dev0 0)))) \<noteq> UFAT_TYPE_FAT32"
    by (simp add: l ty)
  obtain d1 d2 d3 where
    e1: "erase_reserved_blocks stk0 (dev0 0) ?fl = (Inr (), d1)"
    and e2: "init_fat stk0 d1 ?fl = (Inr (), d2)"
    and e3: "init_root_blocks stk0 d2 ?fl = (Inr (), d3)"
    and e4: "write_bpb stk0 d3 ?fl = (Inr (), ?dev')"
    by (rule mkfs_steps [OF ok ty', unfolded l])
  from asserts_ok_Inr [OF erase_blocks_io e1 [unfolded erase_reserved_blocks_def]] l
  have l1: "log2_block_size d1 = 0" by simp
  have copy2: "fat_copy d2 ?fl k = map (fat16_byte_1 4169) [0 ..< 8402]" if "k < 2" for k
    using init_fat16_copy_1 [OF e2 ty l1 fb that] by (simp add: c f)
  have copyi: "fat_copy ?di ?fl k = map (fat16_byte_1 4169) [0 ..< 8402]" if "k < 2" for k
    using init_fat16_copy_1 [OF oki ty l fb that] by (simp add: c f)
  have keep: "dev_blocks ?dev' (512 + of_nat m) = dev_blocks d2 (512 + of_nat m)"
    if m: "m < 16804" for m
  proof -
    have a: "(512 :: ufat_block_t) + of_nat m = of_nat (512 + m)" by simp
    from m have "(of_nat (512 + m) :: ufat_block_t) \<noteq> of_nat 0"
      by (intro of_nat_64_neq) simp_all
    then have nz: "(512 :: ufat_block_t) + of_nat m \<noteq> 0" unfolding a by simp
    have n32: "fs_type ?fl \<noteq> UFAT_TYPE_FAT32" by (simp add: ty)
    from e4 n32 nz have "dev_blocks ?dev' (512 + of_nat m) = dev_blocks d3 (512 + of_nat m)"
      by (rule write_bpb_other)
    also have "\<dots> = dev_blocks d2 (512 + of_nat m)"
    proof (rule erase_blocks_other [OF e3 [unfolded init_root_blocks_def]])
      fix j assume "j < unat (root_blocks ?fl)"
      then have j: "j < 16476" by (simp add: rt)
      have b: "fat_blocks ?fl * 2 + reserved_blocks ?fl + of_nat j = of_nat (17316 + j)"
        by (simp add: f r)
      from m j have "(of_nat (512 + m) :: ufat_block_t) \<noteq> of_nat (17316 + j)"
        by (intro of_nat_64_neq) simp_all
      then show "512 + of_nat m \<noteq> fat_blocks ?fl * 2 + reserved_blocks ?fl + of_nat j"
        unfolding a b .
    qed
    finally show ?thesis .
  qed
  have same: "fat_copy ?dev' ?fl k = fat_copy d2 ?fl k" if k: "k < 2" for k
  proof -
    have "dev_blocks ?dev' (512 + of_nat (k * 8402 + b)) = dev_blocks d2 (512 + of_nat (k * 8402 + b))"
      if "b < 8402" for b
    proof -
      from k that have "k * 8402 + b < 16804" by (cases "k = 0") (simp_all add: less_2_cases_iff)
      then show ?thesis by (rule keep)
    qed
    then have M: "map (\<lambda>b. dev_blocks ?dev' (512 + of_nat (k * 8402 + b))) [0 ..< 8402]
             = map (\<lambda>b. dev_blocks d2 (512 + of_nat (k * 8402 + b))) [0 ..< 8402]"
      by (intro map_cong) simp_all
    have u: "unat (fat_blocks ?fl) = 8402" by (simp add: f)
    have "fat_copy ?dev' ?fl k
            = concat (map (\<lambda>b. dev_blocks ?dev' (512 + of_nat (k * 8402 + b))) [0 ..< 8402])"
      by (simp only: fat_copy_def r u)
    also have "\<dots> = concat (map (\<lambda>b. dev_blocks d2 (512 + of_nat (k * 8402 + b))) [0 ..< 8402])"
      by (simp only: M)
    also have "\<dots> = fat_copy d2 ?fl k" by (simp only: fat_copy_def r u)
    finally show ?thesis .
  qed
  have b: "fat16_byte_1 4169 8338 = 0xf7" "fat16_byte_1 4169 8339 = 0xf7"
          "fat16_byte_1 4169 8400 = 0xf7" "fat16_byte_1 4169 8401 = 0xf7"
    by (simp_all add: fat16_byte_1_def)
  have v1: "fat_entry UFAT_TYPE_FAT16 (map (fat16_byte_1 4169) [0 ..< 8402]) 4169 = 0xf7f7"
    using le16_map [of 8338 8402 "fat16_byte_1 4169"] b by (simp add: fat_entry_def)
  have v2: "fat_entry UFAT_TYPE_FAT16 (map (fat16_byte_1 4169) [0 ..< 8402]) 4200 = 0xf7f7"
    using le16_map [of 8400 8402 "fat16_byte_1 4169"] b by (simp add: fat_entry_def)
  have k0: "(0::nat) < 2" and k1: "(1::nat) < 2" by simp_all
  have e1: "fat_entry UFAT_TYPE_FAT16 (fat_copy ?dev' ?fl 0) 4169 = 0xf7f7"
    unfolding same [OF k0] copy2 [OF k0] by (rule v1)
  have e2: "fat_entry UFAT_TYPE_FAT16 (fat_copy ?dev' ?fl 1) 4200 = 0xf7f7"
    unfolding same [OF k1] copy2 [OF k1] by (rule v2)
  have e3: "fat_entry UFAT_TYPE_FAT16 (fat_copy ?di ?fl 0) 4169 = 0xf7f7"
    unfolding copyi [OF k0] by (rule v1)
  have m: "bad_marker UFAT_TYPE_FAT16 = 0xfff7" by (simp add: bad_marker_def)
  have ne: "fat_entry UFAT_TYPE_FAT16 (fat_copy ?dev' ?fl 0) 4169 \<noteq> bad_marker UFAT_TYPE_FAT16"
    unfolding e1 m by simp
  from cl ty c f ok t1 t2 e1 e2 e3 m ne show ?thesis by (intro conjI)
qed

end
